theory Spec2Isabelle
  imports Main "HOL-Library.Sublist" "HOL-Library.AList" "HOL-Library.Char_ord"
    "HOL-Library.List_Lexorder"
begin

section \<open>Path strings (Go's \<open>path/filepath\<close> on a Unix system)\<close>

text \<open>
  The driver builds every path with \<open>filepath.Join\<close> and \<open>filepath.Clean\<close>.
  Collection and resource names are arbitrary strings, so they may contain separators
  and dot elements; the model therefore keeps paths as strings and follows the
  documented rules of \<open>Clean\<close>: runs of separators collapse, \<open>.\<close> elements vanish,
  an inner \<open>..\<close> removes the element before it, a \<open>..\<close> at the start of a rooted
  path vanishes, and the empty result is \<open>.\<close>.
\<close>

definition Separator :: char where
  "Separator = CHR ''/''"

text \<open>Cutting a string at every separator: \<open>a//b\<close> gives \<open>a\<close>, the empty string, \<open>b\<close>.\<close>

fun split_path :: "string \<Rightarrow> string list" where
  "split_path [] = [[]]"
| "split_path (x # xs) =
     (if x = Separator then [] # split_path xs
      else (case split_path xs of
              [] \<Rightarrow> [[x]]
            | c # cs \<Rightarrow> (x # c) # cs))"

text \<open>The path elements that \<open>Clean\<close> looks at: empty elements and \<open>.\<close> are dropped.\<close>

definition elements :: "string \<Rightarrow> string list" where
  "elements s = filter (\<lambda>c. c \<noteq> [] \<and> c \<noteq> ''.'') (split_path s)"

definition IsRooted :: "string \<Rightarrow> bool" where
  "IsRooted s = (case s of [] \<Rightarrow> False | x # _ \<Rightarrow> x = Separator)"

text \<open>
  One step of the loop of \<open>Clean\<close> on the output written so far (a stack, last element
  first). A \<open>..\<close> backtracks over a real element; where it cannot (empty output, or a
  leading run of \<open>..\<close>), it is dropped on a rooted path and appended otherwise.
\<close>

fun clean_step :: "bool \<Rightarrow> string \<Rightarrow> string list \<Rightarrow> string list" where
  "clean_step rooted c st =
     (if c = ''..'' then
        (case st of
           [] \<Rightarrow> if rooted then [] else [''..'']
         | t # ts \<Rightarrow> if t = ''..'' then ''..'' # st else ts)
      else c # st)"

definition clean_elements :: "bool \<Rightarrow> string list \<Rightarrow> string list" where
  "clean_elements rooted cs = rev (fold (clean_step rooted) cs [])"

fun join_sep :: "string list \<Rightarrow> string" where
  "join_sep [] = []"
| "join_sep [c] = c"
| "join_sep (c # cs) = c @ Separator # join_sep cs"

definition render :: "bool \<Rightarrow> string list \<Rightarrow> string" where
  "render rooted st =
     (if rooted then Separator # join_sep st
      else if st = [] then ''.'' else join_sep st)"

definition Clean :: "string \<Rightarrow> string" where
  "Clean path = render (IsRooted path) (clean_elements (IsRooted path) (elements path))"

text \<open>
  \<open>filepath.Join\<close>: the elements from the first non-empty one on are joined with
  separators and cleaned; if every element is empty the result is the empty string.
\<close>

definition Join :: "string list \<Rightarrow> string" where
  "Join elem =
     (case dropWhile (\<lambda>e. e = []) elem of
        [] \<Rightarrow> []
      | es \<Rightarrow> Clean (join_sep es))"

section \<open>The file system under the driver\<close>

text \<open>
  The driver reaches the disk through Go's \<open>os\<close> and \<open>io/ioutil\<close> packages. They
  are modelled on a tree of directories and regular files. A location is the list of
  names from the file-system root down. Out of the model: symbolic links, special
  files, permissions, quotas and name-length limits; a call fails here only for the
  shape of the tree (a missing entry, a file where a directory is needed, and so on).
\<close>

datatype errno = ENOENT | ENOTDIR | EISDIR | EEXIST | ENOTEMPTY | EINVAL | EBUSY

datatype node = File string | Dir "(string \<times> node) list"

datatype error =
    Errorf string
  | PathError string string errno
  | LinkError string string string errno
  | JsonError string

fun IsDir :: "node \<Rightarrow> bool" where
  "IsDir (Dir es) = True"
| "IsDir (File b) = False"

text \<open>Following a location from a node; an entry of a directory is found by name.\<close>

fun lookup :: "node \<Rightarrow> string list \<Rightarrow> errno + node" where
  "lookup n [] = Inr n"
| "lookup (File b) (c # cs) = Inl ENOTDIR"
| "lookup (Dir es) (c # cs) =
     (case map_of es c of
        None \<Rightarrow> Inl ENOENT
      | Some n \<Rightarrow> lookup n cs)"

text \<open>
  Changing one directory entry: \<open>f\<close> sees the entry at the location (\<open>None\<close> if the
  parent directory has no such name) and answers with an error, with the new entry,
  or with \<open>None\<close> to unlink it. Every directory on the way must exist; the root of the
  tree is no entry of any directory.
\<close>

fun modify :: "(node option \<Rightarrow> errno + node option) \<Rightarrow> node \<Rightarrow> string list \<Rightarrow> errno + node" where
  "modify f n [] = Inl EBUSY"
| "modify f (File b) (c # cs) = Inl ENOTDIR"
| "modify f (Dir es) [c] =
     (case f (map_of es c) of
        Inl e \<Rightarrow> Inl e
      | Inr None \<Rightarrow> Inr (Dir (AList.delete c es))
      | Inr (Some n) \<Rightarrow> Inr (Dir (AList.update c n es)))"
| "modify f (Dir es) (c # c' # cs) =
     (case map_of es c of
        None \<Rightarrow> Inl ENOENT
      | Some n \<Rightarrow>
          (case modify f n (c' # cs) of
             Inl e \<Rightarrow> Inl e
           | Inr n' \<Rightarrow> Inr (Dir (AList.update c n' es))))"

text \<open>\<open>mkdir(2)\<close>: the name must be free.\<close>

definition mkdir_at :: "node \<Rightarrow> string list \<Rightarrow> errno + node" where
  "mkdir_at = modify (\<lambda>e. case e of None \<Rightarrow> Inr (Some (Dir [])) | Some n \<Rightarrow> Inl EEXIST)"

text \<open>\<open>open(2)\<close> with \<open>O_WRONLY|O_CREATE|O_TRUNC\<close>, then writing all the bytes.\<close>

definition write_at :: "string \<Rightarrow> node \<Rightarrow> string list \<Rightarrow> errno + node" where
  "write_at b = modify (\<lambda>e. case e of Some (Dir es) \<Rightarrow> Inl EISDIR | _ \<Rightarrow> Inr (Some (File b)))"

text \<open>\<open>os.Remove\<close>: \<open>unlink(2)\<close> for a file, \<open>rmdir(2)\<close> for an empty directory.\<close>

definition remove_at :: "node \<Rightarrow> string list \<Rightarrow> errno + node" where
  "remove_at = modify (\<lambda>e. case e of
       None \<Rightarrow> Inl ENOENT
     | Some (File b) \<Rightarrow> Inr None
     | Some (Dir es) \<Rightarrow> if es = [] then Inr None else Inl ENOTEMPTY)"

text \<open>Unlinking an entry with everything below it.\<close>

definition prune_at :: "node \<Rightarrow> string list \<Rightarrow> errno + node" where
  "prune_at = modify (\<lambda>e. Inr None)"

text \<open>
  \<open>rename(2)\<close>. A file replaces a file or takes a free name, and cannot replace a
  directory. A directory replaces an empty directory or takes a free name, and
  cannot move below itself. Renaming an entry to itself does nothing.
\<close>

definition replace_by :: "node \<Rightarrow> node option \<Rightarrow> errno + node option" where
  "replace_by n e =
     (case e of
        None \<Rightarrow> Inr (Some n)
      | Some (File b) \<Rightarrow> if IsDir n then Inl ENOTDIR else Inr (Some n)
      | Some (Dir es) \<Rightarrow>
          if \<not> IsDir n then Inl EISDIR
          else if es = [] then Inr (Some n) else Inl ENOTEMPTY)"

definition rename_at :: "node \<Rightarrow> string list \<Rightarrow> string list \<Rightarrow> errno + node" where
  "rename_at root old new =
     (case lookup root old of
        Inl e \<Rightarrow> Inl e
      | Inr n \<Rightarrow>
          if old = [] \<or> new = [] then Inl EBUSY
          else if old = new then Inr root
          else if IsDir n \<and> prefix old new then Inl EINVAL
          else (case modify (replace_by n) root new of
                  Inl e \<Rightarrow> Inl e
                | Inr root' \<Rightarrow> prune_at root' old))"

section \<open>Resolving a path string\<close>

text \<open>
  A path is resolved from the root if it is rooted and from the working directory
  otherwise, element by element; \<open>..\<close> goes to the parent, and the parent of the root
  is the root. The location is kept deepest name first while walking.
\<close>

fun walk_step :: "string \<Rightarrow> string list \<Rightarrow> string list" where
  "walk_step c loc = (if c = ''..'' then tl loc else c # loc)"

definition walk :: "string list \<Rightarrow> string \<Rightarrow> string list" where
  "walk loc s = rev (fold walk_step (elements s) (rev loc))"

definition resolve :: "string list \<Rightarrow> string \<Rightarrow> string list" where
  "resolve cwd path = walk (if IsRooted path then [] else cwd) path"

section \<open>The calls of \<open>os\<close> and \<open>io/ioutil\<close> the driver makes\<close>

text \<open>
  What the driver can observe or change outside its own record: the file tree, the
  working directory of the process, the number of mutexes allocated so far (a fresh
  \<open>&sync.Mutex{}\<close> is a new address), and the sequence of lock, unlock and logging
  calls made so far.
\<close>

datatype mutex = RegistryMutex | CollectionMutex nat

datatype level = DEBUG | INFO

datatype event = Lock mutex | Unlock mutex | Log level string

record sys =
  tree :: node
  cwd :: "string list"
  heap :: nat
  events :: "event list"

text \<open>A string between single quotes, as the format \<open>'%s'\<close> prints it.\<close>

definition quoted :: "string \<Rightarrow> string" where
  "quoted s = CHR 0x27 # s @ [CHR 0x27]"

definition emit :: "event \<Rightarrow> sys \<Rightarrow> sys" where
  "emit e w = w\<lparr>events := events w @ [e]\<rparr>"

text \<open>The empty path names nothing: every system call on it fails with \<open>ENOENT\<close>.\<close>

definition os_Stat :: "sys \<Rightarrow> string \<Rightarrow> error + node" where
  "os_Stat w name =
     (if name = [] then Inl (PathError ''stat'' name ENOENT)
      else (case lookup (tree w) (resolve (cwd w) name) of
              Inl e \<Rightarrow> Inl (PathError ''stat'' name e)
            | Inr n \<Rightarrow> Inr n))"

definition apply_at ::
  "string \<Rightarrow> (node \<Rightarrow> string list \<Rightarrow> errno + node) \<Rightarrow> sys \<Rightarrow> string \<Rightarrow> error option \<times> sys" where
  "apply_at op f w name =
     (if name = [] then (Some (PathError op name ENOENT), w)
      else (case f (tree w) (resolve (cwd w) name) of
              Inl e \<Rightarrow> (Some (PathError op name e), w)
            | Inr t \<Rightarrow> (None, w\<lparr>tree := t\<rparr>)))"

definition os_Mkdir :: "sys \<Rightarrow> string \<Rightarrow> error option \<times> sys" where
  "os_Mkdir = apply_at ''mkdir'' mkdir_at"

text \<open>
  \<open>os.MkdirAll\<close> works on the path string. Nothing is to do on a directory, and a
  file there is \<open>ENOTDIR\<close>. Otherwise the parent, the path up to the separator
  before its last element, is made first if it is not empty, then the directory
  itself; if that \<open>os.Mkdir\<close> fails and the directory is there all the same, the
  call succeeds.
\<close>

definition parent_dir :: "string \<Rightarrow> string" where
  "parent_dir path =
     butlast (rev (dropWhile (\<lambda>c. c \<noteq> Separator) (dropWhile (\<lambda>c. c = Separator) (rev path))))"

function os_MkdirAll :: "sys \<Rightarrow> string \<Rightarrow> error option \<times> sys" where
  "os_MkdirAll w path =
     (case os_Stat w path of
        Inr (Dir es) \<Rightarrow> (None, w)
      | Inr (File b) \<Rightarrow> (Some (PathError ''mkdir'' path ENOTDIR), w)
      | Inl err \<Rightarrow>
          (case (if parent_dir path \<noteq> [] then os_MkdirAll w (parent_dir path) else (None, w)) of
             (Some err', w1) \<Rightarrow> (Some err', w1)
           | (None, w1) \<Rightarrow>
               (case os_Mkdir w1 path of
                  (None, w2) \<Rightarrow> (None, w2)
                | (Some err', w2) \<Rightarrow>
                    (case os_Stat w1 path of
                       Inr (Dir es) \<Rightarrow> (None, w1)
                     | _ \<Rightarrow> (Some err', w1)))))"
  by pat_completeness auto
termination
proof (relation "measure (\<lambda>(w, path). length path)")
  fix w :: sys and path :: string
  assume a: "parent_dir path \<noteq> []"
  define r where "r = dropWhile (\<lambda>c. c \<noteq> Separator) (dropWhile (\<lambda>c. c = Separator) (rev path))"
  have "length r \<le> length (dropWhile (\<lambda>c. c = Separator) (rev path))"
    unfolding r_def by (rule length_dropWhile_le)
  also have "\<dots> \<le> length (rev path)"
    by (rule length_dropWhile_le)
  finally have le: "length r \<le> length path" by simp
  from a have "r \<noteq> []" by (auto simp: parent_dir_def r_def [symmetric])
  with le have "length (parent_dir path) < length path"
    by (cases r) (simp_all add: parent_dir_def r_def [symmetric])
  then show "((w, parent_dir path), (w, path)) \<in> measure (\<lambda>(w, path). length path)"
    by simp
qed simp

definition ioutil_WriteFile :: "sys \<Rightarrow> string \<Rightarrow> string \<Rightarrow> error option \<times> sys" where
  "ioutil_WriteFile w filename data = apply_at ''open'' (write_at data) w filename"

definition os_Remove :: "sys \<Rightarrow> string \<Rightarrow> error option \<times> sys" where
  "os_Remove = apply_at ''remove'' remove_at"

definition os_Rename :: "sys \<Rightarrow> string \<Rightarrow> string \<Rightarrow> error option \<times> sys" where
  "os_Rename w oldpath newpath =
     (if oldpath = [] \<or> newpath = [] then (Some (LinkError ''rename'' oldpath newpath ENOENT), w)
      else (case rename_at (tree w) (resolve (cwd w) oldpath) (resolve (cwd w) newpath) of
              Inl e \<Rightarrow> (Some (LinkError ''rename'' oldpath newpath e), w)
            | Inr t \<Rightarrow> (None, w\<lparr>tree := t\<rparr>)))"

definition ioutil_ReadFile :: "sys \<Rightarrow> string \<Rightarrow> error + string" where
  "ioutil_ReadFile w filename =
     (if filename = [] then Inl (PathError ''open'' filename ENOENT)
      else (case lookup (tree w) (resolve (cwd w) filename) of
              Inl e \<Rightarrow> Inl (PathError ''open'' filename e)
            | Inr (Dir es) \<Rightarrow> Inl (PathError ''read'' filename EISDIR)
            | Inr (File b) \<Rightarrow> Inr b))"

text \<open>
  \<open>ioutil.ReadDir\<close> lists a directory sorted by file name (bytewise). An entry is
  given with its node, which stands for the \<open>os.FileInfo\<close>: the name is the first
  component and \<open>IsDir\<close> reads the mode.
\<close>

definition ioutil_ReadDir :: "sys \<Rightarrow> string \<Rightarrow> error + (string \<times> node) list" where
  "ioutil_ReadDir w dirname =
     (if dirname = [] then Inl (PathError ''open'' dirname ENOENT)
      else (case lookup (tree w) (resolve (cwd w) dirname) of
              Inl e \<Rightarrow> Inl (PathError ''open'' dirname e)
            | Inr (File b) \<Rightarrow> Inl (PathError ''readdirent'' dirname ENOTDIR)
            | Inr (Dir es) \<Rightarrow> Inr (sort_key fst (AList.clearjunk es))))"

text \<open>
  \<open>os.RemoveAll\<close> returns nil on the empty path and on a missing one, refuses a path
  whose last element is \<open>.\<close> with \<open>EINVAL\<close> before touching anything, and otherwise
  unlinks the entry with everything below it. The root directory and a path ending
  in \<open>..\<close> cannot be unlinked themselves: their content goes and the final
  \<open>rmdir\<close> reports the error.
\<close>

definition endsWithDot :: "string \<Rightarrow> bool" where
  "endsWithDot path =
     (path = ''.'' \<or>
      (length path \<ge> 2 \<and> last path = CHR ''.'' \<and> last (butlast path) = Separator))"

definition empty_at :: "node \<Rightarrow> string list \<Rightarrow> errno + node" where
  "empty_at t loc =
     (if loc = [] then Inr (Dir []) else modify (\<lambda>e. Inr (Some (Dir []))) t loc)"

definition os_RemoveAll :: "sys \<Rightarrow> string \<Rightarrow> error option \<times> sys" where
  "os_RemoveAll w path =
     (if path = [] then (None, w)
      else if endsWithDot path then (Some (PathError ''RemoveAll'' path EINVAL), w)
      else (case lookup (tree w) (resolve (cwd w) path) of
              Inl e \<Rightarrow>
                if e = ENOENT then (None, w) else (Some (PathError ''remove'' path e), w)
            | Inr n \<Rightarrow>
                if IsDir n \<and> (resolve (cwd w) path = [] \<or> last (split_path path) = ''..'')
                then (case empty_at (tree w) (resolve (cwd w) path) of
                        Inl e \<Rightarrow> (Some (PathError ''unlinkat'' path e), w)
                      | Inr t \<Rightarrow>
                          (Some (PathError ''unlinkat'' path
                             (if resolve (cwd w) path = [] then EBUSY else ENOTEMPTY)),
                           w\<lparr>tree := t\<rparr>))
                else apply_at ''unlinkat'' prune_at w path))"

section \<open>The driver\<close>

text \<open>
  The \<open>Driver\<close> struct: the registry of per-collection mutexes and the root
  directory. Its own mutex and its logger show in the events of the system. A mutex
  is known by its address, a number.
\<close>

record Driver =
  mutexes :: "string \<rightharpoonup> nat"
  dir :: string

text \<open>
  \<open>New\<close> cleans the path, fills the record, and creates the directory unless
  \<open>os.Stat\<close> finds something there. The record is returned in either case, next to
  the result of \<open>os.MkdirAll\<close>. The options only choose the logger, whose calls
  are recorded as events.
\<close>

definition New :: "sys \<Rightarrow> string \<Rightarrow> (Driver \<times> error option) \<times> sys" where
  "New w dir0 =
     (let dir = Clean dir0;
          driver = \<lparr>mutexes = Map.empty, dir = dir\<rparr>
      in (case os_Stat w dir of
            Inr fi \<Rightarrow>
              ((driver, None),
               emit (Log DEBUG (''Using '' @ quoted dir @ '' (database already exists)'' @ [CHR 0x0A])) w)
          | Inl err \<Rightarrow>
              (let (err', w') = os_MkdirAll
                     (emit (Log DEBUG (''Creating the database at '' @ quoted dir @ ''...'' @ [CHR 0x0A])) w) dir
               in ((driver, err'), w'))))"

text \<open>
  \<open>getOrCreateMutex\<close> holds the mutex of the driver from its first statement to
  its return: the lookup and the insertion of a freshly allocated mutex happen in
  between.
\<close>

definition getOrCreateMutex :: "Driver \<Rightarrow> sys \<Rightarrow> string \<Rightarrow> nat \<times> Driver \<times> sys" where
  "getOrCreateMutex d w collection =
     (let w1 = emit (Lock RegistryMutex) w
      in (case mutexes d collection of
            Some m \<Rightarrow> (m, d, emit (Unlock RegistryMutex) w1)
          | None \<Rightarrow>
              (let m = heap w1;
                   w2 = w1\<lparr>heap := Suc (heap w1)\<rparr>;
                   d' = d\<lparr>mutexes := (mutexes d)(collection \<mapsto> m)\<rparr>
               in (m, d', emit (Unlock RegistryMutex) w2))))"

text \<open>
  \<open>Write\<close>, after its two argument checks and under the mutex of the collection.
  The serializer \<open>json.MarshalIndent\<close> is a parameter: it answers with an error
  message or with the bytes.
\<close>

definition Write_locked ::
  "('v \<Rightarrow> string + string) \<Rightarrow> Driver \<Rightarrow> sys \<Rightarrow> string \<Rightarrow> string \<Rightarrow> 'v \<Rightarrow> error option \<times> sys" where
  "Write_locked MarshalIndent d w collection resource v =
     (let dir = Join [Driver.dir d, collection];
          fnlPath = Join [dir, resource @ ''.json''];
          tmpPath = fnlPath @ ''.tmp''
      in (case os_MkdirAll w dir of
            (Some err, w1) \<Rightarrow> (Some err, w1)
          | (None, w1) \<Rightarrow>
              (case MarshalIndent v of
                 Inl err \<Rightarrow> (Some (JsonError err), w1)
               | Inr b \<Rightarrow>
                   (case ioutil_WriteFile w1 tmpPath (b @ [CHR 0x0A]) of
                      (Some err, w2) \<Rightarrow> (Some err, w2)
                    | (None, w2) \<Rightarrow>
                        (case os_Rename w2 tmpPath fnlPath of
                           (Some err, w3) \<Rightarrow> (Some err, w3)
                         | (None, w3) \<Rightarrow>
                             (None, emit (Log INFO (''Successfully wrote data to ''
                                @ quoted fnlPath @ [CHR 0x0A])) w3))))))"

definition Write ::
  "('v \<Rightarrow> string + string) \<Rightarrow> Driver \<Rightarrow> sys \<Rightarrow> string \<Rightarrow> string \<Rightarrow> 'v
     \<Rightarrow> error option \<times> Driver \<times> sys" where
  "Write MarshalIndent d w collection resource v =
     (if collection = [] then
        (Some (Errorf ''Missing collection - no place to save record!''), d, w)
      else if resource = [] then
        (Some (Errorf ''Missing resource - unable to save record (no name)!''), d, w)
      else
        (let (mutex, d1, w1) = getOrCreateMutex d w collection;
             (err, w2) = Write_locked MarshalIndent d1 (emit (Lock (CollectionMutex mutex)) w1)
                           collection resource v
         in (err, d1, emit (Unlock (CollectionMutex mutex)) w2)))"

text \<open>
  \<open>Read\<close> takes no lock and changes nothing outside the container \<open>v\<close> it
  decodes into. The decoder \<open>json.Unmarshal\<close> is a parameter: from the bytes and
  the container it gives the container afterwards, and an error message if it failed.
\<close>

definition Read ::
  "(string \<Rightarrow> 'c \<Rightarrow> string option \<times> 'c) \<Rightarrow> Driver \<Rightarrow> sys \<Rightarrow> string \<Rightarrow> string \<Rightarrow> 'c
     \<Rightarrow> error option \<times> 'c" where
  "Read Unmarshal d w collection resource v =
     (if collection = [] then
        (Some (Errorf ''Missing collection - unable to read!''), v)
      else if resource = [] then
        (Some (Errorf ''Missing resource - unable to read record (no name)!''), v)
      else
        (let recordPath = Join [dir d, collection, resource @ ''.json'']
         in (case os_Stat w recordPath of
               Inl err \<Rightarrow> (Some err, v)
             | Inr fi \<Rightarrow>
                 (case ioutil_ReadFile w recordPath of
                    Inl err \<Rightarrow> (Some err, v)
                  | Inr b \<Rightarrow>
                      (case Unmarshal b v of
                         (None, v') \<Rightarrow> (None, v')
                       | (Some err, v') \<Rightarrow> (Some (JsonError err), v'))))))"

text \<open>The record types of the program; a \<open>json.Number\<close> is a string.\<close>

record Address =
  City :: string
  State :: string
  Country :: string
  Pincode :: string

record User =
  Name :: string
  Age :: string
  Contact :: string
  Company :: string
  Address :: Address

text \<open>The zero value that \<open>var user User\<close> declares.\<close>

definition zero_User :: User where
  "zero_User = \<lparr>Name = [], Age = [], Contact = [], Company = [],
     Address = \<lparr>City = [], State = [], Country = [], Pincode = []\<rparr>\<rparr>"

text \<open>
  The loop of \<open>ReadAll\<close> over the listing of the collection directory
  \<open>cdir\<close> (the \<open>dir\<close> of the source), with the slice \<open>users\<close> built so far:
  a directory is skipped, a file is read and decoded into a fresh \<open>User\<close>, and
  the first error ends the loop with no slice.
\<close>

fun ReadAll_loop ::
  "(string \<Rightarrow> User \<Rightarrow> string option \<times> User) \<Rightarrow> sys \<Rightarrow> string \<Rightarrow> (string \<times> node) list
     \<Rightarrow> User list \<Rightarrow> error + User list" where
  "ReadAll_loop Unmarshal w cdir [] users = Inr users"
| "ReadAll_loop Unmarshal w cdir (file # files) users =
     (if IsDir (snd file) then ReadAll_loop Unmarshal w cdir files users
      else (case ioutil_ReadFile w (Join [cdir, fst file]) of
              Inl err \<Rightarrow> Inl err
            | Inr b \<Rightarrow>
                (case Unmarshal b zero_User of
                   (Some err, user) \<Rightarrow> Inl (JsonError err)
                 | (None, user) \<Rightarrow> ReadAll_loop Unmarshal w cdir files (users @ [user]))))"

definition ReadAll ::
  "(string \<Rightarrow> User \<Rightarrow> string option \<times> User) \<Rightarrow> Driver \<Rightarrow> sys \<Rightarrow> string
     \<Rightarrow> error + User list" where
  "ReadAll Unmarshal d w collection =
     (if collection = [] then Inl (Errorf ''Missing collection - unable to read'')
      else
        (let dir = Join [Driver.dir d, collection]
         in (case os_Stat w dir of
               Inl err \<Rightarrow> Inl err
             | Inr fi \<Rightarrow>
                 (case ioutil_ReadDir w dir of
                    Inl err \<Rightarrow> Inl err
                  | Inr files \<Rightarrow> ReadAll_loop Unmarshal w dir files []))))"

text \<open>
  \<open>Delete\<close> checks no argument. It stats the joined path as it is, without the
  \<open>.json\<close> suffix, and removes a directory found there with all its content; for a
  regular file found there it removes the path with \<open>.json\<close> appended. (The last
  \<open>return nil\<close> of the source is for a file that is neither, which this file
  system does not have.)
\<close>

definition Delete :: "Driver \<Rightarrow> sys \<Rightarrow> string \<Rightarrow> string \<Rightarrow> error option \<times> Driver \<times> sys" where
  "Delete d w collection resource =
     (let path = Join [collection, resource];
          (mutex, d1, w1) = getOrCreateMutex d w collection;
          w2 = emit (Lock (CollectionMutex mutex)) w1;
          dir = Join [Driver.dir d1, path];
          (err, w3) =
            (case os_Stat w2 dir of
               Inl err \<Rightarrow>
                 (Some (Errorf (''unable to find file or directory named '' @ path @ [CHR 0x0A])), w2)
             | Inr (Dir es) \<Rightarrow> os_RemoveAll w2 dir
             | Inr (File b) \<Rightarrow> os_Remove w2 (dir @ ''.json''))
      in (err, d1, emit (Unlock (CollectionMutex mutex)) w3))"

section \<open>\<open>encoding/json\<close> on a \<open>json.Number\<close>\<close>

text \<open>
  \<open>Write\<close> and \<open>Read\<close> take any value, so also a \<open>json.Number\<close> on its own, the
  type of \<open>Age\<close> and \<open>Pincode\<close>. This is what the library does with one.
  \<open>isValidNumber\<close> is the grammar of a number literal: an optional minus, a zero or
  a run of digits that does not start with zero, an optional fraction, an optional
  exponent.
\<close>

definition is_digit :: "char \<Rightarrow> bool" where
  "is_digit c = (CHR ''0'' \<le> c \<and> c \<le> CHR ''9'')"

definition isValidNumber :: "string \<Rightarrow> bool" where
  "isValidNumber s0 =
     (if s0 = [] then False
      else
        (let s1 = (if hd s0 = CHR ''-'' then tl s0 else s0)
         in if s1 = [] then False
            else if hd s1 = CHR ''0'' \<or> (CHR ''1'' \<le> hd s1 \<and> hd s1 \<le> CHR ''9'') then
              (let s2 = (if hd s1 = CHR ''0'' then tl s1 else dropWhile is_digit (tl s1));
                   s3 = (if length s2 \<ge> 2 \<and> hd s2 = CHR ''.'' \<and> is_digit (s2 ! 1)
                         then dropWhile is_digit (drop 2 s2) else s2)
               in if length s3 \<ge> 2 \<and> (hd s3 = CHR ''e'' \<or> hd s3 = CHR ''E'') then
                    (if hd (tl s3) = CHR ''+'' \<or> hd (tl s3) = CHR ''-'' then
                       (if tl (tl s3) = [] then False
                        else dropWhile is_digit (tl (tl s3)) = [])
                     else dropWhile is_digit (tl s3) = [])
                  else s3 = [])
            else False))"

text \<open>
  The encoder writes the empty \<open>Number\<close>, the zero value of the type, as \<open>0\<close>, and
  refuses a text that is no number literal. Indenting changes nothing in a number.
  (The error message of the library also quotes the text.)
\<close>

definition marshal_Number :: "string \<Rightarrow> string + string" where
  "marshal_Number n =
     (let numStr = (if n = [] then ''0'' else n)
      in if isValidNumber numStr then Inr numStr
         else Inl ''json: invalid number literal'')"

text \<open>
  The decoder into a \<open>*json.Number\<close>: a number literal between optional white space
  is stored as its text, and \<open>null\<close> leaves the container as it is. Everything else
  is one error here; the library tells a syntax error from a value of another kind,
  and takes a number from a quoted string as well.
\<close>

definition is_space :: "char \<Rightarrow> bool" where
  "is_space c = (c = CHR '' '' \<or> c = CHR 0x09 \<or> c = CHR 0x0A \<or> c = CHR 0x0D)"

definition trim_space :: "string \<Rightarrow> string" where
  "trim_space s = rev (dropWhile is_space (rev (dropWhile is_space s)))"

definition unmarshal_Number :: "string \<Rightarrow> string \<Rightarrow> string option \<times> string" where
  "unmarshal_Number data n =
     (let item = trim_space data
      in if isValidNumber item then (None, item)
         else if item = ''null'' then (None, n)
         else (Some ''json: cannot unmarshal into Go value of type json.Number'', n))"

section \<open>Concurrent callers of \<open>getOrCreateMutex\<close>\<close>

text \<open>
  Several goroutines share one driver. Each is at one statement of
  \<open>getOrCreateMutex\<close>, or outside a call: before \<open>d.mutex.Lock()\<close>, before the
  lookup \<open>m, ok := d.mutexes[collection]\<close>, before the test of \<open>ok\<close> with the value
  it read, before the assignment \<open>d.mutexes[collection] = m\<close> with the mutex it
  allocated, before \<open>return m\<close> (where the deferred \<open>d.mutex.Unlock()\<close> runs), or
  back in its caller with the result.
\<close>

datatype pc =
    Idle
  | AtLock string
  | AtLookup string
  | AtTest string "nat option"
  | AtStore string nat
  | AtReturn string nat
  | Returned string nat

record registry_run =
  shared :: Driver
  allocated :: nat
  holder :: "nat option"
  pcs :: "pc list"

text \<open>
  A schedule is a list of actions: goroutine \<open>t\<close> calls \<open>getOrCreateMutex\<close> for a
  collection, or goroutine \<open>t\<close> runs its next statement. \<open>Lock\<close> can only run while
  nobody holds the mutex of the driver; an action that cannot run gives \<open>None\<close>.
\<close>

datatype action = Call nat string | Step nat

fun exec :: "action \<Rightarrow> registry_run \<Rightarrow> registry_run option" where
  "exec (Call t c) s =
     (if t < length (pcs s) then
        (case pcs s ! t of
           Idle \<Rightarrow> Some (s\<lparr>pcs := (pcs s)[t := AtLock c]\<rparr>)
         | Returned c' m \<Rightarrow> Some (s\<lparr>pcs := (pcs s)[t := AtLock c]\<rparr>)
         | _ \<Rightarrow> None)
      else None)"
| "exec (Step t) s =
     (if t < length (pcs s) then
        (case pcs s ! t of
           AtLock c \<Rightarrow>
             if holder s = None
             then Some (s\<lparr>holder := Some t, pcs := (pcs s)[t := AtLookup c]\<rparr>)
             else None
         | AtLookup c \<Rightarrow>
             Some (s\<lparr>pcs := (pcs s)[t := AtTest c (mutexes (shared s) c)]\<rparr>)
         | AtTest c (Some m) \<Rightarrow> Some (s\<lparr>pcs := (pcs s)[t := AtReturn c m]\<rparr>)
         | AtTest c None \<Rightarrow>
             Some (s\<lparr>allocated := Suc (allocated s),
                    pcs := (pcs s)[t := AtStore c (allocated s)]\<rparr>)
         | AtStore c m \<Rightarrow>
             Some (s\<lparr>shared := (shared s)\<lparr>mutexes := (mutexes (shared s))(c \<mapsto> m)\<rparr>,
                    pcs := (pcs s)[t := AtReturn c m]\<rparr>)
         | AtReturn c m \<Rightarrow> Some (s\<lparr>holder := None, pcs := (pcs s)[t := Returned c m]\<rparr>)
         | _ \<Rightarrow> None)
      else None)"

fun run :: "action list \<Rightarrow> registry_run \<Rightarrow> registry_run option" where
  "run [] s = Some s"
| "run (a # as) s = (case exec a s of None \<Rightarrow> None | Some s' \<Rightarrow> run as s')"

text \<open>The start: \<open>n\<close> goroutines outside any call, and the mutex of the driver free.\<close>

definition initial_run :: "Driver \<Rightarrow> nat \<Rightarrow> nat \<Rightarrow> registry_run" where
  "initial_run d h n = \<lparr>shared = d, allocated = h, holder = None, pcs = replicate n Idle\<rparr>"

text \<open>A goroutine is in the critical section from after \<open>Lock\<close> to its return.\<close>

fun critical :: "pc \<Rightarrow> bool" where
  "critical (AtLookup c) = True"
| "critical (AtTest c v) = True"
| "critical (AtStore c m) = True"
| "critical (AtReturn c m) = True"
| "critical _ = False"

text \<open>
  What holds of goroutine \<open>t\<close> at each statement: in the critical section it holds
  the mutex; the value it read is still what the registry has; where it is about to
  insert, the registry has no entry yet; its result is the entry of the registry.
\<close>

fun pc_ok :: "(string \<rightharpoonup> nat) \<Rightarrow> nat option \<Rightarrow> nat \<Rightarrow> pc \<Rightarrow> bool" where
  "pc_ok reg h t Idle = True"
| "pc_ok reg h t (AtLock c) = True"
| "pc_ok reg h t (AtLookup c) = (h = Some t)"
| "pc_ok reg h t (AtTest c v) = (h = Some t \<and> reg c = v)"
| "pc_ok reg h t (AtStore c m) = (h = Some t \<and> reg c = None)"
| "pc_ok reg h t (AtReturn c m) = (h = Some t \<and> reg c = Some m)"
| "pc_ok reg h t (Returned c m) = (reg c = Some m)"

definition registry_inv :: "registry_run \<Rightarrow> bool" where
  "registry_inv s = (\<forall>t < length (pcs s). pc_ok (mutexes (shared s)) (holder s) t (pcs s ! t))"

section \<open>Example systems\<close>

text \<open>
  A process in the directory \<open>/home\<close> of an otherwise empty disk, and the driver
  that \<open>main\<close> makes there with \<open>New("./Users", nil)\<close>.
\<close>

definition sys0 :: sys where
  "sys0 = \<lparr>tree = Dir [(''home'', Dir [])], cwd = [''home''], heap = 0, events = []\<rparr>"

definition driver0 :: Driver where
  "driver0 = \<lparr>mutexes = Map.empty, dir = ''Users''\<rparr>"

text \<open>A serializer that accepts every string as it is, and one that rejects every value.\<close>

definition marshal_id :: "string \<Rightarrow> string + string" where
  "marshal_id v = Inr v"

definition marshal_fail :: "string \<Rightarrow> string + string" where
  "marshal_fail v = Inl ''json: unsupported value''"

text \<open>
  A decoder for the strings written by \<open>marshal_id\<close>: the value is the content
  without its final newline, and bytes that do not end in a newline are an error.
\<close>

definition unmarshal_line :: "string \<Rightarrow> string \<Rightarrow> string option \<times> string" where
  "unmarshal_line b v =
     (if b \<noteq> [] \<and> last b = CHR 0x0A then (None, butlast b)
      else (Some ''unexpected end of JSON input'', v))"

text \<open>
  The driver and the system after \<open>Write("users", "Kamo", v)\<close> with the database
  directory in place, and the system before it.
\<close>

definition sys_db :: sys where
  "sys_db = \<lparr>tree = Dir [(''home'', Dir [(''Users'', Dir [])])], cwd = [''home''],
     heap = 0, events = []\<rparr>"

definition driver1 :: Driver where
  "driver1 = \<lparr>mutexes = [''users'' \<mapsto> 0], dir = ''Users''\<rparr>"

definition sys1 :: sys where
  "sys1 = \<lparr>tree = Dir [(''home'', Dir [(''Users'', Dir [(''users'',
       Dir [(''Kamo.json'', File (''{}'' @ [CHR 0x0A]))])])])],
     cwd = [''home''], heap = 1,
     events = [Lock RegistryMutex, Unlock RegistryMutex, Lock (CollectionMutex 0),
       Log INFO (''Successfully wrote data to '' @ quoted ''Users/users/Kamo.json'' @ [CHR 0x0A]),
       Unlock (CollectionMutex 0)]\<rparr>"

text \<open>The system after a \<open>Write\<close> into \<open>sys_db\<close> whose serialization failed.\<close>

definition sys2 :: sys where
  "sys2 = \<lparr>tree = Dir [(''home'', Dir [(''Users'', Dir [(''users'', Dir [])])])],
     cwd = [''home''], heap = 1,
     events = [Lock RegistryMutex, Unlock RegistryMutex, Lock (CollectionMutex 0),
       Unlock (CollectionMutex 0)]\<rparr>"

text \<open>
  A decoder into a \<open>User\<close>: the content without its final newline becomes the
  name, and bytes that do not end in a newline are an error.
\<close>

definition unmarshal_name :: "string \<Rightarrow> User \<Rightarrow> string option \<times> User" where
  "unmarshal_name b u =
     (if b \<noteq> [] \<and> last b = CHR 0x0A then (None, u\<lparr>Name := butlast b\<rparr>)
      else (Some ''unexpected end of JSON input'', u))"

text \<open>
  A collection with two well-formed records, a subdirectory and, between the two
  records in the order of the listing, a record cut short.
\<close>

definition sys3 :: sys where
  "sys3 = \<lparr>tree = Dir [(''home'', Dir [(''Users'', Dir [(''users'',
       Dir [(''Kamzo.json'', File (''Kamzo'' @ [CHR 0x0A])),
            (''Kamo.json'', File (''Kamo'' @ [CHR 0x0A])),
            (''Kamogelo.json'', File ''Kamog''),
            (''Archive'', Dir [(''El.json'', File ''E'')])])])])],
     cwd = [''home''], heap = 1, events = []\<rparr>"

text \<open>A disk on which a regular file stands where the database directory should go.\<close>

definition sys_file :: sys where
  "sys_file = \<lparr>tree = Dir [(''home'', Dir [(''Users'', File ''x'')])], cwd = [''home''],
     heap = 0, events = []\<rparr>"

text \<open>
  Two goroutines ask for the mutex of \<open>users\<close> on a fresh driver. Both have called
  before either locks; the first runs through and returns, then the second does.
\<close>

definition first_caller :: "action list" where
  "first_caller = [Call 0 ''users'', Call 1 ''users'', Step 0, Step 0, Step 0, Step 0, Step 0]"

definition second_caller :: "action list" where
  "second_caller = [Step 1, Step 1, Step 1, Step 1]"

definition run_mid :: registry_run where
  "run_mid = \<lparr>shared = driver1, allocated = 1, holder = None,
     pcs = [Returned ''users'' 0, AtLock ''users'']\<rparr>"

definition run_end :: registry_run where
  "run_end = \<lparr>shared = driver1, allocated = 1, holder = None,
     pcs = [Returned ''users'' 0, Returned ''users'' 0]\<rparr>"

text \<open>
  The system after \<open>Write("users", "Age", json.Number(""))\<close> with the database
  directory in place.
\<close>

definition sys_number :: sys where
  "sys_number = \<lparr>tree = Dir [(''home'', Dir [(''Users'', Dir [(''users'',
       Dir [(''Age.json'', File (''0'' @ [CHR 0x0A]))])])])],
     cwd = [''home''], heap = 1,
     events = [Lock RegistryMutex, Unlock RegistryMutex, Lock (CollectionMutex 0),
       Log INFO (''Successfully wrote data to '' @ quoted ''Users/users/Age.json'' @ [CHR 0x0A]),
       Unlock (CollectionMutex 0)]\<rparr>"

text \<open>
  The driver and the system after a further \<open>Write("/../b", "Kamo", v)\<close>: the
  directory of the collection \<open>/../b\<close> is \<open>b\<close> in the working directory, beside
  the database directory.
\<close>

definition driver_b :: Driver where
  "driver_b = \<lparr>mutexes = [''users'' \<mapsto> 0, ''/../b'' \<mapsto> 1], dir = ''Users''\<rparr>"

definition sys_b :: sys where
  "sys_b = \<lparr>tree = Dir [(''home'', Dir [(''Users'', Dir [(''users'',
         Dir [(''Kamo.json'', File (''{}'' @ [CHR 0x0A]))])]),
       (''b'', Dir [(''Kamo.json'', File (''{}'' @ [CHR 0x0A]))])])],
     cwd = [''home''], heap = 2,
     events = [Lock RegistryMutex, Unlock RegistryMutex, Lock (CollectionMutex 0),
       Log INFO (''Successfully wrote data to '' @ quoted ''Users/users/Kamo.json'' @ [CHR 0x0A]),
       Unlock (CollectionMutex 0),
       Lock RegistryMutex, Unlock RegistryMutex, Lock (CollectionMutex 1),
       Log INFO (''Successfully wrote data to '' @ quoted ''b/Kamo.json'' @ [CHR 0x0A]),
       Unlock (CollectionMutex 1)]\<rparr>"

section \<open>Facts about path strings\<close>

declare walk_step.simps [simp del] clean_step.simps [simp del] os_MkdirAll.simps [simp del]

lemma split_path_not_Nil [simp]: "split_path s \<noteq> []"
  by (induction s) (auto split: list.splits)

lemma split_path_append_sep:
  "split_path (x @ Separator # y) = split_path x @ split_path y"
  by (induction x) (auto split: list.splits)

lemma split_path_no_sep: "c \<in> set (split_path s) \<Longrightarrow> Separator \<notin> set c"
  by (induction s arbitrary: c) (auto split: list.splits if_splits)

lemma split_path_single: "Separator \<notin> set t \<Longrightarrow> split_path t = [t]"
  by (induction t) auto

lemma split_path_append_nosep:
  "Separator \<notin> set t \<Longrightarrow>
   split_path (s @ t) = butlast (split_path s) @ [last (split_path s) @ t]"
  by (induction s) (auto simp: split_path_single split: list.splits)

lemma elements_append_sep: "elements (x @ Separator # y) = elements x @ elements y"
  by (simp add: elements_def split_path_append_sep)

lemma elements_valid:
  "c \<in> set (elements s) \<Longrightarrow> c \<noteq> [] \<and> c \<noteq> ''.'' \<and> Separator \<notin> set c"
  by (auto simp: elements_def dest: split_path_no_sep)

lemma split_path_join_sep:
  "cs \<noteq> [] \<Longrightarrow> \<forall>c\<in>set cs. Separator \<notin> set c \<Longrightarrow> split_path (join_sep cs) = cs"
proof (induction cs rule: join_sep.induct)
  case 1
  then show ?case by simp
next
  case (2 c)
  then show ?case by (simp add: split_path_single)
next
  case (3 c v va)
  then show ?case by (simp add: split_path_append_sep split_path_single)
qed

lemma elements_render:
  assumes "\<forall>c\<in>set st. c \<noteq> [] \<and> c \<noteq> ''.'' \<and> Separator \<notin> set c"
  shows "elements (render r st) = st"
proof (cases "st = []")
  case True
  then show ?thesis by (simp add: render_def elements_def Separator_def)
next
  case False
  with assms have "split_path (join_sep st) = st"
    by (simp add: split_path_join_sep)
  moreover from assms have "filter (\<lambda>c. c \<noteq> [] \<and> c \<noteq> ''.'') st = st"
    by (induction st) auto
  ultimately show ?thesis using False
    by (simp add: render_def elements_def)
qed

lemma IsRooted_render:
  assumes "\<forall>c\<in>set st. c \<noteq> [] \<and> c \<noteq> ''.'' \<and> Separator \<notin> set c"
  shows "IsRooted (render r st) = r"
proof (cases st rule: join_sep.cases)
  case 1
  then show ?thesis by (simp add: render_def IsRooted_def Separator_def)
next
  case (2 c)
  with assms show ?thesis by (cases c) (auto simp: render_def IsRooted_def)
next
  case (3 c v va)
  with assms show ?thesis by (cases c) (auto simp: render_def IsRooted_def)
qed

lemma render_not_Nil:
  assumes "\<forall>c\<in>set st. c \<noteq> [] \<and> c \<noteq> ''.'' \<and> Separator \<notin> set c"
  shows "render r st \<noteq> []"
  using assms by (cases st rule: join_sep.cases) (auto simp: render_def)

lemma clean_step_subset: "set (clean_step r x st) \<subseteq> insert x (set st)"
  by (cases st) (auto simp: clean_step.simps)

lemma fold_clean_step_subset: "set (fold (clean_step r) cs st) \<subseteq> set cs \<union> set st"
proof (induction cs arbitrary: st)
  case Nil
  then show ?case by simp
next
  case (Cons x cs)
  have "set (fold (clean_step r) cs (clean_step r x st)) \<subseteq> set cs \<union> set (clean_step r x st)"
    by (rule Cons.IH)
  also have "\<dots> \<subseteq> set cs \<union> insert x (set st)"
    using clean_step_subset [of r x st] by blast
  finally show ?case by auto
qed

lemma clean_elements_valid:
  "\<forall>c\<in>set (clean_elements r (elements s)). c \<noteq> [] \<and> c \<noteq> ''.'' \<and> Separator \<notin> set c"
proof
  fix c
  assume "c \<in> set (clean_elements r (elements s))"
  then have "c \<in> set (elements s)"
    using fold_clean_step_subset [of r "elements s" "[]"] by (auto simp: clean_elements_def)
  then show "c \<noteq> [] \<and> c \<noteq> ''.'' \<and> Separator \<notin> set c"
    by (rule elements_valid)
qed

lemma walk_clean_elements:
  assumes "r \<longrightarrow> start = []"
  shows "fold walk_step (rev (fold (clean_step r) cs [])) start = fold walk_step cs start"
proof (induction cs rule: rev_induct)
  case Nil
  then show ?case by simp
next
  case (snoc c cs)
  define st where "st = fold (clean_step r) cs []"
  define L where "L = fold walk_step cs start"
  from snoc have IH: "fold walk_step (rev st) start = L"
    by (simp add: st_def L_def)
  have "fold walk_step (rev (clean_step r c st)) start = walk_step c L"
  proof (cases "c = ''..''")
    case False
    then show ?thesis using IH by (simp add: clean_step.simps)
  next
    case True
    show ?thesis
    proof (cases st)
      case Nil
      with IH have "L = start" by simp
      with Nil True assms show ?thesis
        by (cases r) (simp_all add: clean_step.simps walk_step.simps)
    next
      case (Cons t ts)
      show ?thesis
      proof (cases "t = ''..''")
        case True
        with Cons \<open>c = ''..''\<close> IH show ?thesis by (simp add: clean_step.simps)
      next
        case False
        with Cons IH have "t # fold walk_step (rev ts) start = L"
          by (simp add: walk_step.simps)
        then have "tl L = fold walk_step (rev ts) start" by auto
        with Cons False \<open>c = ''..''\<close> show ?thesis
          by (simp add: clean_step.simps walk_step.simps)
      qed
    qed
  qed
  then show ?case by (simp add: st_def L_def)
qed

lemma Clean_not_Nil [simp]: "Clean s \<noteq> []"
  by (simp add: Clean_def render_not_Nil clean_elements_valid)

lemma IsRooted_Clean: "IsRooted (Clean s) = IsRooted s"
  by (simp add: Clean_def IsRooted_render clean_elements_valid)

lemma elements_Clean: "elements (Clean s) = clean_elements (IsRooted s) (elements s)"
  by (simp add: Clean_def elements_render clean_elements_valid)

lemma resolve_Clean: "resolve wd (Clean s) = resolve wd s"
  by (simp add: resolve_def walk_def IsRooted_Clean elements_Clean clean_elements_def
      walk_clean_elements)

lemma IsRooted_append: "a \<noteq> [] \<Longrightarrow> IsRooted (a @ b) = IsRooted a"
  by (cases a) (auto simp: IsRooted_def)

lemma resolve_append_sep:
  "a \<noteq> [] \<Longrightarrow> resolve wd (a @ Separator # b) = walk (resolve wd a) b"
  by (simp add: resolve_def IsRooted_append walk_def elements_append_sep)

lemma Join2: "Join [a, b] = (if a = [] then (if b = [] then [] else Clean b) else Clean (a @ Separator # b))"
  by (cases b) (auto simp: Join_def)

lemma Join3_nonempty: "a \<noteq> [] \<Longrightarrow> Join [a, b, c] = Clean (a @ Separator # b @ Separator # c)"
  by (auto simp: Join_def)

lemma Join3_empty: "Join [[], b, c] = Join [b, c]"
  by (auto simp: Join_def)

lemma resolve_Join2:
  "resolve wd (Join [a, b]) = (if a = [] then resolve wd b else walk (resolve wd a) b)"
proof (cases "a = []")
  case True
  then show ?thesis by (cases "b = []") (simp_all add: Join2 resolve_Clean)
next
  case False
  then show ?thesis by (simp add: Join2 resolve_Clean resolve_append_sep)
qed

lemma resolve_Join3:
  assumes "a \<noteq> []"
  shows "resolve wd (Join [a, b, c]) = walk (walk (resolve wd a) b) c"
proof -
  have "resolve wd (Join [a, b, c]) = resolve wd ((a @ Separator # b) @ Separator # c)"
    using assms by (simp add: Join3_nonempty resolve_Clean)
  also have "\<dots> = walk (resolve wd (a @ Separator # b)) c"
    by (rule resolve_append_sep) simp
  finally show ?thesis using assms by (simp add: resolve_append_sep)
qed

lemma Join2_not_Nil: "a \<noteq> [] \<or> b \<noteq> [] \<Longrightarrow> Join [a, b] \<noteq> []"
  by (auto simp: Join2)

lemma Join3_not_Nil: "a \<noteq> [] \<or> b \<noteq> [] \<or> c \<noteq> [] \<Longrightarrow> Join [a, b, c] \<noteq> []"
  by (cases "a = []"; cases "b = []") (auto simp: Join3_nonempty Join3_empty Join2)

lemma resolve_Join_Join:
  assumes "b \<noteq> []"
  shows "resolve wd (Join [Join [a, b], c]) = resolve wd (Join [a, b, c])"
proof (cases "a = []")
  case True
  have "resolve wd (Join [Join [a, b], c]) = walk (resolve wd (Join [a, b])) c"
    using assms by (simp add: resolve_Join2 [of wd "Join [a, b]"] Join2_not_Nil)
  also have "\<dots> = walk (resolve wd b) c"
    by (simp add: True resolve_Join2)
  also have "\<dots> = resolve wd (Join [a, b, c])"
    using True assms by (simp add: Join3_empty resolve_Join2 [of wd b c])
  finally show ?thesis .
next
  case False
  have "resolve wd (Join [Join [a, b], c]) = walk (resolve wd (Join [a, b])) c"
    using assms by (simp add: resolve_Join2 [of wd "Join [a, b]"] Join2_not_Nil)
  also have "\<dots> = walk (walk (resolve wd a) b) c"
    by (simp add: False resolve_Join2)
  finally show ?thesis using False by (simp add: resolve_Join3)
qed

lemma join_sep_snoc_append: "join_sep (st @ [k]) @ t = join_sep (st @ [k @ t])"
proof (induction st rule: join_sep.induct)
  case 1
  then show ?case by simp
next
  case (2 c)
  then show ?case by simp
next
  case (3 c v va)
  then show ?case by simp
qed

lemma render_snoc_append: "render r (st @ [k]) @ t = render r (st @ [k @ t])"
  by (simp add: render_def join_sep_snoc_append)

lemma clean_elements_snoc:
  "k \<noteq> ''..'' \<Longrightarrow> clean_elements r (es @ [k]) = clean_elements r es @ [k]"
  by (simp add: clean_elements_def clean_step.simps)

lemma resolve_render_snoc:
  assumes "\<forall>c\<in>set st. c \<noteq> [] \<and> c \<noteq> ''.'' \<and> Separator \<notin> set c"
    and "k \<noteq> []" "k \<noteq> ''.''" "k \<noteq> ''..''" "Separator \<notin> set k"
  shows "resolve wd (render r (st @ [k])) =
         rev (fold walk_step st (rev (if r then [] else wd))) @ [k]"
proof -
  have v: "\<forall>c\<in>set (st @ [k]). c \<noteq> [] \<and> c \<noteq> ''.'' \<and> Separator \<notin> set c"
    using assms by auto
  show ?thesis
    unfolding resolve_def walk_def IsRooted_render [OF v] elements_render [OF v]
    using assms(4) by (simp add: walk_step.simps)
qed

lemma elements_append_suffix:
  assumes "Separator \<notin> set t" and "last (split_path s) @ t \<noteq> []"
    and "last (split_path s) @ t \<noteq> ''.''"
  shows "elements (s @ t) =
         filter (\<lambda>c. c \<noteq> [] \<and> c \<noteq> ''.'') (butlast (split_path s)) @ [last (split_path s) @ t]"
  using assms by (simp add: elements_def split_path_append_nosep)

lemma record_path_locations:
  "\<exists>P n. resolve wd (Clean (s @ ''.json'')) = P @ [n] \<and>
          resolve wd (Clean (s @ ''.json'') @ ''.tmp'') = P @ [n @ ''.tmp'']"
proof -
  define m where "m = last (split_path s) @ ''.json''"
  define es where "es = filter (\<lambda>c. c \<noteq> [] \<and> c \<noteq> ''.'') (butlast (split_path s))"
  define r where "r = IsRooted (s @ ''.json'')"
  define st where "st = clean_elements r es"
  have m: "m \<noteq> []" "m \<noteq> ''.''" "m \<noteq> ''..''"
    by (auto simp: m_def append_eq_Cons_conv)
  have "last (split_path s) \<in> set (split_path s)" by simp
  then have "Separator \<notin> set (last (split_path s))" by (rule split_path_no_sep)
  then have msep: "Separator \<notin> set m"
    by (simp add: m_def) (simp add: Separator_def)
  have mt: "m @ ''.tmp'' \<noteq> []" "m @ ''.tmp'' \<noteq> ''.''" "m @ ''.tmp'' \<noteq> ''..''"
    by (auto simp: m_def append_eq_Cons_conv)
  have mtsep: "Separator \<notin> set (m @ ''.tmp'')"
    using msep by (simp add: Separator_def)
  have el: "elements (s @ ''.json'') = es @ [m]"
    unfolding es_def m_def
    by (rule elements_append_suffix) (auto simp: Separator_def append_eq_Cons_conv)
  have valid: "\<forall>c\<in>set st. c \<noteq> [] \<and> c \<noteq> ''.'' \<and> Separator \<notin> set c"
  proof
    fix c assume "c \<in> set st"
    then have "c \<in> set es"
      using fold_clean_step_subset [of r es "[]"] by (auto simp: st_def clean_elements_def)
    then show "c \<noteq> [] \<and> c \<noteq> ''.'' \<and> Separator \<notin> set c"
      by (auto simp: es_def dest: in_set_butlastD split_path_no_sep)
  qed
  have cl: "Clean (s @ ''.json'') = render r (st @ [m])"
    by (simp add: Clean_def el r_def [symmetric] clean_elements_snoc m st_def)
  have "resolve wd (Clean (s @ ''.json'')) =
        rev (fold walk_step st (rev (if r then [] else wd))) @ [m]"
    unfolding cl by (rule resolve_render_snoc [OF valid m msep])
  moreover have "resolve wd (Clean (s @ ''.json'') @ ''.tmp'') =
        rev (fold walk_step st (rev (if r then [] else wd))) @ [m @ ''.tmp'']"
    unfolding cl render_snoc_append by (rule resolve_render_snoc [OF valid mt mtsep])
  ultimately show ?thesis by blast
qed

lemma Join_record_path:
  assumes "a \<noteq> []"
  shows "\<exists>P n. resolve wd (Join [a, r @ ''.json'']) = P @ [n] \<and>
          resolve wd (Join [a, r @ ''.json''] @ ''.tmp'') = P @ [n @ ''.tmp'']"
proof -
  have "Join [a, r @ ''.json''] = Clean ((a @ Separator # r) @ ''.json'')"
    using assms by (simp add: Join2)
  then show ?thesis using record_path_locations [of wd "a @ Separator # r"] by simp
qed

section \<open>Facts about the file tree\<close>

lemma modify_Cons_cases:
  assumes "modify f t (c # cs) = Inr t'"
  obtains es r where "t = Dir es" "cs = []" "f (map_of es c) = Inr r"
      "t' = (case r of None \<Rightarrow> Dir (AList.delete c es) | Some n \<Rightarrow> Dir (AList.update c n es))"
  | es n n' where "t = Dir es" "cs \<noteq> []" "map_of es c = Some n" "modify f n cs = Inr n'"
      "t' = Dir (AList.update c n' es)"
proof (cases t)
  case (File b)
  with assms show ?thesis by simp
next
  case (Dir es)
  show ?thesis
  proof (cases cs)
    case Nil
    with Dir assms that(1) show ?thesis
      by (auto split: sum.splits option.splits)
  next
    case (Cons c' cs')
    with Dir assms that(2) show ?thesis
      by (auto split: sum.splits option.splits)
  qed
qed

lemma lookup_modify_below:
  "modify f t loc = Inr t' \<Longrightarrow>
   \<exists>r. f (case lookup t loc of Inl e \<Rightarrow> None | Inr n \<Rightarrow> Some n) = Inr r \<and>
       (\<forall>q. lookup t' (loc @ q) = (case r of None \<Rightarrow> Inl ENOENT | Some n \<Rightarrow> lookup n q))"
proof (induction loc arbitrary: t t')
  case Nil
  then show ?case by simp
next
  case (Cons c cs)
  from Cons.prems show ?case
  proof (cases rule: modify_Cons_cases)
    case (1 es r)
    then show ?thesis
      by (cases r) (auto simp: update_conv' delete_conv' split: option.splits)
  next
    case (2 es n n')
    from Cons.IH [OF 2(4)] 2 show ?thesis
      by (auto simp: update_conv')
  qed
qed

lemma lookup_modify_other:
  "modify f t loc = Inr t' \<Longrightarrow> \<not> prefix loc q \<Longrightarrow> \<not> prefix q loc \<Longrightarrow>
   lookup t' q = lookup t q"
proof (induction loc arbitrary: t t' q)
  case Nil
  then show ?case by simp
next
  case (Cons c cs)
  from Cons.prems(3) obtain x xs where q: "q = x # xs" by (cases q) auto
  from Cons.prems(1) show ?case
  proof (cases rule: modify_Cons_cases)
    case (1 es r)
    with Cons.prems(2) q have "x \<noteq> c" by auto
    with 1 q show ?thesis
      by (cases r) (auto simp: update_conv' delete_conv')
  next
    case (2 es n n')
    show ?thesis
    proof (cases "x = c")
      case True
      with Cons.prems q have "\<not> prefix cs xs" "\<not> prefix xs cs" by auto
      from Cons.IH [OF 2(4) this] 2 q True show ?thesis
        by (simp add: update_conv')
    next
      case False
      with 2 q show ?thesis by (simp add: update_conv')
    qed
  qed
qed

lemma lookup_modify_above:
  "modify f t (q @ x # xs) = Inr t' \<Longrightarrow>
   (\<exists>es. lookup t q = Inr (Dir es)) \<and> (\<exists>es'. lookup t' q = Inr (Dir es'))"
proof (induction q arbitrary: t t')
  case Nil
  then have "modify f t (x # xs) = Inr t'" by simp
  then show ?case
    by (cases rule: modify_Cons_cases) (auto split: option.splits)
next
  case (Cons c q)
  then have "modify f t (c # (q @ x # xs)) = Inr t'" by simp
  then show ?case
  proof (cases rule: modify_Cons_cases)
    case (1 es r)
    then show ?thesis by simp
  next
    case (2 es n n')
    from Cons.IH [OF 2(4)] 2 show ?thesis
      by (simp add: update_conv')
  qed
qed

lemma lookup_modify_at:
  assumes "modify f t loc = Inr t'" and "\<And>e r. f e = Inr r \<Longrightarrow> r = Some n"
  shows "lookup t' loc = Inr n"
proof -
  from lookup_modify_below [OF assms(1)] obtain r where
    r: "f (case lookup t loc of Inl e \<Rightarrow> None | Inr n \<Rightarrow> Some n) = Inr r"
    and l: "\<forall>q. lookup t' (loc @ q) = (case r of None \<Rightarrow> Inl ENOENT | Some n \<Rightarrow> lookup n q)"
    by blast
  from assms(2) [OF r] l [rule_format, of "[]"] show ?thesis by simp
qed

lemma lookup_modify_removed:
  assumes "modify f t loc = Inr t'" and "\<And>e r. f e = Inr r \<Longrightarrow> r = None"
  shows "lookup t' (loc @ q) = Inl ENOENT"
proof -
  from lookup_modify_below [OF assms(1)] obtain r where
    r: "f (case lookup t loc of Inl e \<Rightarrow> None | Inr n \<Rightarrow> Some n) = Inr r"
    and l: "\<forall>q. lookup t' (loc @ q) = (case r of None \<Rightarrow> Inl ENOENT | Some n \<Rightarrow> lookup n q)"
    by blast
  from assms(2) [OF r] l [rule_format, of q] show ?thesis by simp
qed

lemma replace_by_Some: "replace_by n e = Inr r \<Longrightarrow> r = Some n"
  by (auto simp: replace_by_def split: option.splits node.splits if_splits)

lemma lookup_append:
  "lookup t (p @ q) = (case lookup t p of Inl e \<Rightarrow> Inl e | Inr n \<Rightarrow> lookup n q)"
proof (induction p arbitrary: t)
  case Nil
  then show ?case by simp
next
  case (Cons c p)
  then show ?case by (cases t) (auto split: option.splits)
qed

lemma mkdir_at_files:
  assumes "mkdir_at t loc = Inr t'"
  shows "(lookup t' q = Inr (File b)) = (lookup t q = Inr (File b))"
proof -
  let ?f = "\<lambda>e. case e of None \<Rightarrow> Inr (Some (Dir [])) | Some (n::node) \<Rightarrow> Inl EEXIST"
  from assms have m: "modify ?f t loc = Inr t'" by (simp add: mkdir_at_def)
  from lookup_modify_below [OF m] obtain r where
    r: "?f (case lookup t loc of Inl e \<Rightarrow> None | Inr n \<Rightarrow> Some n) = Inr r"
    and l: "\<forall>q. lookup t' (loc @ q) = (case r of None \<Rightarrow> Inl ENOENT | Some n \<Rightarrow> lookup n q)"
    by blast
  from r have r': "r = Some (Dir [])" and old: "\<exists>e. lookup t loc = Inl e"
    by (auto split: sum.splits option.splits)
  consider (below) q' where "q = loc @ q'" | (above) x xs where "loc = q @ x # xs"
    | (other) "\<not> prefix loc q" "\<not> prefix q loc"
    by (metis prefixE strict_prefixE' strict_prefixI)
  then show ?thesis
  proof cases
    case (below q')
    from old obtain e where "lookup t loc = Inl e" by blast
    then have "lookup t q = Inl e" by (simp add: below lookup_append)
    moreover have "lookup t' q \<noteq> Inr (File b)"
      using l [rule_format, of q'] r' by (cases q') (simp_all add: below)
    ultimately show ?thesis by simp
  next
    case (above x xs)
    with lookup_modify_above [of ?f t q x xs t'] m show ?thesis by auto
  next
    case other
    with lookup_modify_other [OF m] show ?thesis by simp
  qed
qed

section \<open>Facts about the system calls and \<open>Write\<close>\<close>

lemma tree_emit [simp]: "tree (emit e w) = tree w"
  and cwd_emit [simp]: "cwd (emit e w) = cwd w"
  and heap_emit [simp]: "heap (emit e w) = heap w"
  by (simp_all add: emit_def)

lemma os_Stat_emit [simp]: "os_Stat (emit e w) p = os_Stat w p"
  by (simp add: os_Stat_def)

lemma ioutil_ReadFile_emit [simp]: "ioutil_ReadFile (emit e w) p = ioutil_ReadFile w p"
  by (simp add: ioutil_ReadFile_def)

lemma ioutil_ReadDir_emit [simp]: "ioutil_ReadDir (emit e w) p = ioutil_ReadDir w p"
  by (simp add: ioutil_ReadDir_def)

lemma apply_at_success:
  assumes "apply_at op f w name = (None, w')"
  obtains t where "name \<noteq> []" "f (tree w) (resolve (cwd w) name) = Inr t" "w' = w\<lparr>tree := t\<rparr>"
  using assms by (auto simp: apply_at_def split: if_splits sum.splits)

lemma apply_at_failure:
  "apply_at op f w name = (Some e, w') \<Longrightarrow> w' = w"
  by (auto simp: apply_at_def split: if_splits sum.splits)

lemma os_Rename_success:
  assumes "os_Rename w old new = (None, w')"
  obtains t where "old \<noteq> []" "new \<noteq> []"
    "rename_at (tree w) (resolve (cwd w) old) (resolve (cwd w) new) = Inr t" "w' = w\<lparr>tree := t\<rparr>"
  using assms by (auto simp: os_Rename_def split: if_splits sum.splits)

lemma getOrCreateMutex_frame:
  assumes "getOrCreateMutex d w c = (m, d1, w1)"
  shows "dir d1 = dir d" "tree w1 = tree w" "cwd w1 = cwd w"
  using assms by (auto simp: getOrCreateMutex_def Let_def split: option.splits)

lemma os_Mkdir_files:
  assumes "os_Mkdir w p = (e, w')"
  shows "(lookup (tree w') q = Inr (File b)) = (lookup (tree w) q = Inr (File b))"
proof (cases e)
  case None
  with assms obtain t where "mkdir_at (tree w) (resolve (cwd w) p) = Inr t" "w' = w\<lparr>tree := t\<rparr>"
    unfolding os_Mkdir_def by (auto elim: apply_at_success)
  then show ?thesis by (simp add: mkdir_at_files)
next
  case (Some a)
  with assms show ?thesis
    unfolding os_Mkdir_def by (auto dest: apply_at_failure)
qed

lemma os_Mkdir_frame:
  assumes "os_Mkdir w p = (e, w')"
  shows "cwd w' = cwd w" "heap w' = heap w" "events w' = events w"
  using assms by (auto simp: os_Mkdir_def apply_at_def split: if_splits sum.splits)

lemma os_Mkdir_success:
  assumes "os_Mkdir w p = (None, w')"
  shows "os_Stat w' p = Inr (Dir [])"
proof -
  from assms obtain t where p: "p \<noteq> []" and t: "mkdir_at (tree w) (resolve (cwd w) p) = Inr t"
    and w': "w' = w\<lparr>tree := t\<rparr>"
    unfolding os_Mkdir_def by (rule apply_at_success)
  have "lookup t (resolve (cwd w) p) = Inr (Dir [])"
    using t [unfolded mkdir_at_def] by (rule lookup_modify_at) (auto split: option.splits)
  with p w' show ?thesis by (simp add: os_Stat_def)
qed

lemma os_MkdirAll_files:
  "os_MkdirAll w p = (e, w') \<Longrightarrow>
   (lookup (tree w') q = Inr (File b)) = (lookup (tree w) q = Inr (File b))"
proof (induction w p arbitrary: e w' rule: os_MkdirAll.induct)
  case (1 w path)
  show ?case
  proof (cases "os_Stat w path")
    case (Inr n)
    with "1.prems" show ?thesis
      by (cases n) (simp_all add: os_MkdirAll.simps [of w path])
  next
    case (Inl err)
    obtain e1 w1 where p: "(if parent_dir path \<noteq> [] then os_MkdirAll w (parent_dir path)
        else (None, w)) = (e1, w1)"
      by (cases "if parent_dir path \<noteq> [] then os_MkdirAll w (parent_dir path) else (None, w)")
    have f1: "(lookup (tree w1) q = Inr (File b)) = (lookup (tree w) q = Inr (File b))"
      using p "1.IH" [OF Inl] by (auto split: if_splits)
    obtain e2 w2 where m: "os_Mkdir w1 path = (e2, w2)"
      by (cases "os_Mkdir w1 path")
    from os_Mkdir_files [OF m]
    have f2: "(lookup (tree w2) q = Inr (File b)) = (lookup (tree w1) q = Inr (File b))" .
    from "1.prems" Inl p m have "w' = w1 \<or> w' = w2"
      by (auto simp: os_MkdirAll.simps [of w path] split: option.splits sum.splits node.splits)
    with f1 f2 show ?thesis by auto
  qed
qed

lemma os_MkdirAll_frame:
  "os_MkdirAll w p = (e, w') \<Longrightarrow> cwd w' = cwd w \<and> heap w' = heap w \<and> events w' = events w"
proof (induction w p arbitrary: e w' rule: os_MkdirAll.induct)
  case (1 w path)
  show ?case
  proof (cases "os_Stat w path")
    case (Inr n)
    with "1.prems" show ?thesis
      by (cases n) (simp_all add: os_MkdirAll.simps [of w path])
  next
    case (Inl err)
    obtain e1 w1 where p: "(if parent_dir path \<noteq> [] then os_MkdirAll w (parent_dir path)
        else (None, w)) = (e1, w1)"
      by (cases "if parent_dir path \<noteq> [] then os_MkdirAll w (parent_dir path) else (None, w)")
    have f1: "cwd w1 = cwd w \<and> heap w1 = heap w \<and> events w1 = events w"
      using p "1.IH" [OF Inl] by (auto split: if_splits)
    obtain e2 w2 where m: "os_Mkdir w1 path = (e2, w2)"
      by (cases "os_Mkdir w1 path")
    note f2 = os_Mkdir_frame [OF m]
    from "1.prems" Inl p m have "w' = w1 \<or> w' = w2"
      by (auto simp: os_MkdirAll.simps [of w path] split: option.splits sum.splits node.splits)
    with f1 f2 show ?thesis by auto
  qed
qed

lemma os_MkdirAll_success:
  "os_MkdirAll w p = (None, w') \<Longrightarrow> p \<noteq> [] \<and> (\<exists>es. os_Stat w' p = Inr (Dir es))"
proof -
  assume a: "os_MkdirAll w p = (None, w')"
  show ?thesis
  proof (cases "os_Stat w p")
    case (Inr n)
    with a show ?thesis
      by (cases n) (auto simp: os_MkdirAll.simps [of w p] os_Stat_def split: if_splits)
  next
    case (Inl err)
    obtain e1 w1 where p: "(if parent_dir p \<noteq> [] then os_MkdirAll w (parent_dir p)
        else (None, w)) = (e1, w1)"
      by (cases "if parent_dir p \<noteq> [] then os_MkdirAll w (parent_dir p) else (None, w)")
    obtain e2 w2 where m: "os_Mkdir w1 p = (e2, w2)"
      by (cases "os_Mkdir w1 p")
    from a Inl p m have "(e2 = None \<and> w' = w2) \<or> (\<exists>es. os_Stat w1 p = Inr (Dir es) \<and> w' = w1)"
      by (auto simp: os_MkdirAll.simps [of w p] split: option.splits sum.splits node.splits)
    then have "\<exists>es. os_Stat w' p = Inr (Dir es)"
      using m os_Mkdir_success by auto
    then show ?thesis by (auto simp: os_Stat_def split: if_splits)
  qed
qed

lemma os_Stat_same_tree: "tree w2 = tree w \<Longrightarrow> cwd w2 = cwd w \<Longrightarrow> os_Stat w2 p = os_Stat w p"
  by (simp add: os_Stat_def)

lemma os_Mkdir_same_tree:
  assumes "tree w2 = tree w" "cwd w2 = cwd w"
  shows "fst (os_Mkdir w2 p) = fst (os_Mkdir w p) \<and>
         tree (snd (os_Mkdir w2 p)) = tree (snd (os_Mkdir w p)) \<and>
         cwd (snd (os_Mkdir w2 p)) = cwd (snd (os_Mkdir w p))"
  using assms by (auto simp: os_Mkdir_def apply_at_def split: sum.splits)

lemma os_MkdirAll_same_tree:
  "tree w2 = tree w \<Longrightarrow> cwd w2 = cwd w \<Longrightarrow>
   fst (os_MkdirAll w2 p) = fst (os_MkdirAll w p) \<and>
   tree (snd (os_MkdirAll w2 p)) = tree (snd (os_MkdirAll w p)) \<and>
   cwd (snd (os_MkdirAll w2 p)) = cwd (snd (os_MkdirAll w p))"
proof (induction w p arbitrary: w2 rule: os_MkdirAll.induct)
  case (1 w path)
  note st = os_Stat_same_tree [OF "1.prems"]
  show ?case
  proof (cases "os_Stat w path")
    case (Inr n)
    with "1.prems" st show ?thesis
      by (cases n) (simp_all add: os_MkdirAll.simps [of _ path])
  next
    case (Inl err)
    let ?P = "\<lambda>w. if parent_dir path \<noteq> [] then os_MkdirAll w (parent_dir path) else (None, w)"
    have par: "fst (?P w2) = fst (?P w) \<and> tree (snd (?P w2)) = tree (snd (?P w)) \<and>
        cwd (snd (?P w2)) = cwd (snd (?P w))"
      using "1.IH" [OF Inl _ "1.prems"] "1.prems" by simp
    obtain e1 w1 where p: "?P w = (e1, w1)" by (cases "?P w")
    obtain e1' w1' where p': "?P w2 = (e1', w1')" by (cases "?P w2")
    from par p p' have e1: "e1' = e1" and t1: "tree w1' = tree w1" "cwd w1' = cwd w1" by simp_all
    note mk = os_Mkdir_same_tree [OF t1, of path]
    note st1 = os_Stat_same_tree [OF t1, of path]
    obtain e2 w3 where m: "os_Mkdir w1 path = (e2, w3)" by (cases "os_Mkdir w1 path")
    obtain e2' w3' where m': "os_Mkdir w1' path = (e2', w3')" by (cases "os_Mkdir w1' path")
    from mk m m' have e2: "e2' = e2" and t3: "tree w3' = tree w3" "cwd w3' = cwd w3" by simp_all
    have l: "os_MkdirAll w path =
        (case e1 of Some err' \<Rightarrow> (Some err', w1)
         | None \<Rightarrow> (case e2 of None \<Rightarrow> (None, w3)
            | Some err' \<Rightarrow> (case os_Stat w1 path of Inr (Dir es) \<Rightarrow> (None, w1)
                | _ \<Rightarrow> (Some err', w1))))"
      using Inl p m by (simp add: os_MkdirAll.simps [of w path] split: option.splits)
    have r: "os_MkdirAll w2 path =
        (case e1 of Some err' \<Rightarrow> (Some err', w1')
         | None \<Rightarrow> (case e2 of None \<Rightarrow> (None, w3')
            | Some err' \<Rightarrow> (case os_Stat w1 path of Inr (Dir es) \<Rightarrow> (None, w1')
                | _ \<Rightarrow> (Some err', w1'))))"
      using Inl st p' m' e1 e2 st1 by (simp add: os_MkdirAll.simps [of w2 path] split: option.splits)
    show ?thesis
      unfolding l r using t1 t3
      by (auto split: option.splits sum.splits node.splits)
  qed
qed

lemma rename_at_file_sibling:
  assumes "rename_at t (P @ [a]) (P @ [b]) = Inr t'"
    and "lookup t (P @ [a]) = Inr (File data)" and "a \<noteq> b"
  shows "lookup t' (P @ [b]) = Inr (File data)"
proof -
  from assms obtain t1 where t1: "modify (replace_by (File data)) t (P @ [b]) = Inr t1"
    and t': "prune_at t1 (P @ [a]) = Inr t'"
    by (auto simp: rename_at_def split: sum.splits)
  have "lookup t1 (P @ [b]) = Inr (File data)"
    using t1 by (rule lookup_modify_at) (rule replace_by_Some)
  moreover have "lookup t' (P @ [b]) = lookup t1 (P @ [b])"
    using t' [unfolded prune_at_def] by (rule lookup_modify_other) (use assms(3) in auto)
  ultimately show ?thesis by simp
qed

lemma write_at_lookup:
  assumes "write_at data t loc = Inr t'"
  shows "lookup t' loc = Inr (File data)"
  using assms [unfolded write_at_def]
  by (rule lookup_modify_at) (auto split: option.splits node.splits)

lemma Write_locked_success:
  assumes "Write_locked M d w c r v = (None, w')"
  shows "\<exists>b. M v = Inr b \<and> cwd w' = cwd w \<and>
           lookup (tree w') (resolve (cwd w) (Join [Join [dir d, c], r @ ''.json''])) =
             Inr (File (b @ [CHR 0x0A]))"
proof -
  let ?dir = "Join [dir d, c]"
  let ?fnl = "Join [?dir, r @ ''.json'']"
  let ?tmp = "?fnl @ ''.tmp''"
  from assms obtain w1 b w2 w3 where
    mk: "os_MkdirAll w ?dir = (None, w1)" and b: "M v = Inr b"
    and wr: "ioutil_WriteFile w1 ?tmp (b @ [CHR 0x0A]) = (None, w2)"
    and rn: "os_Rename w2 ?tmp ?fnl = (None, w3)"
    and w': "w' = emit (Log INFO (''Successfully wrote data to '' @ quoted ?fnl @ [CHR 0x0A])) w3"
    by (auto simp: Write_locked_def Let_def split: prod.splits option.splits sum.splits)
  from os_MkdirAll_success [OF mk] have dir: "?dir \<noteq> []" by simp
  from os_MkdirAll_frame [OF mk] have w1: "cwd w1 = cwd w" by simp
  from wr obtain t2 where t2: "write_at (b @ [CHR 0x0A]) (tree w1) (resolve (cwd w1) ?tmp) = Inr t2"
    and w2: "w2 = w1\<lparr>tree := t2\<rparr>"
    unfolding ioutil_WriteFile_def by (rule apply_at_success)
  from rn obtain t3 where
    t3: "rename_at (tree w2) (resolve (cwd w2) ?tmp) (resolve (cwd w2) ?fnl) = Inr t3"
    and w3: "w3 = w2\<lparr>tree := t3\<rparr>"
    by (rule os_Rename_success)
  from Join_record_path [OF dir] obtain P n where
    fnl: "resolve (cwd w) ?fnl = P @ [n]" and tmp: "resolve (cwd w) ?tmp = P @ [n @ ''.tmp'']"
    by blast
  have cw: "cwd w1 = cwd w" "cwd w2 = cwd w" "cwd w' = cwd w"
    by (simp_all add: w1 w2 w3 w')
  have l2: "lookup t2 (P @ [n @ ''.tmp'']) = Inr (File (b @ [CHR 0x0A]))"
    using t2 by (simp add: cw tmp write_at_lookup)
  have "rename_at t2 (P @ [n @ ''.tmp'']) (P @ [n]) = Inr t3"
    using t3 by (simp add: cw tmp fnl w2)
  then have "lookup t3 (P @ [n]) = Inr (File (b @ [CHR 0x0A]))"
    using l2 by (rule rename_at_file_sibling) simp
  then show ?thesis using b by (simp add: cw fnl w' w3)
qed

lemma Write_success:
  assumes "Write M d w c r v = (None, d', w')"
  shows "c \<noteq> [] \<and> r \<noteq> [] \<and> dir d' = dir d \<and> cwd w' = cwd w \<and>
         (\<exists>b. M v = Inr b \<and>
           lookup (tree w') (resolve (cwd w) (Join [dir d, c, r @ ''.json''])) =
             Inr (File (b @ [CHR 0x0A])))"
proof -
  from assms have c: "c \<noteq> []" and r: "r \<noteq> []"
    by (auto simp: Write_def split: if_splits)
  obtain m d1 w1 where g: "getOrCreateMutex d w c = (m, d1, w1)"
    by (cases "getOrCreateMutex d w c") auto
  obtain err w2 where l: "Write_locked M d1 (emit (Lock (CollectionMutex m)) w1) c r v = (err, w2)"
    by (cases "Write_locked M d1 (emit (Lock (CollectionMutex m)) w1) c r v") auto
  from assms c r g l have e: "err = None" and d': "d' = d1"
    and w': "w' = emit (Unlock (CollectionMutex m)) w2"
    by (simp_all add: Write_def)
  note fr = getOrCreateMutex_frame [OF g]
  from Write_locked_success [OF l [unfolded e]] obtain b where
    "M v = Inr b" "cwd w2 = cwd w"
    "lookup (tree w2) (resolve (cwd w) (Join [Join [dir d, c], r @ ''.json''])) =
       Inr (File (b @ [CHR 0x0A]))"
    by (auto simp: fr)
  then show ?thesis
    using c r by (auto simp: d' w' fr resolve_Join_Join)
qed

section \<open>Properties of \<open>Write\<close>: argument checks\<close>

text \<open>
  Claim C4. \<open>Write\<close> with an empty collection name fails with the error
  "Missing collection - no place to save record!", and with a non-empty collection
  and an empty resource name it fails with "Missing resource - unable to save record
  (no name)!". In both cases the driver and the system come back as they were: no
  mutex was looked up, created, locked or unlocked, nothing was logged and the file
  tree is the same.
\<close>

theorem Write_missing_argument:
  "(collection = [] \<longrightarrow>
      Write MarshalIndent d w collection resource v =
        (Some (Errorf ''Missing collection - no place to save record!''), d, w)) \<and>
   (collection \<noteq> [] \<and> resource = [] \<longrightarrow>
      Write MarshalIndent d w collection resource v =
        (Some (Errorf ''Missing resource - unable to save record (no name)!''), d, w))"
  by (simp add: Write_def)

theorem Write_missing_argument_witness:
  "Write marshal_id driver0 sys0 [] ''Kamo'' ''{}'' =
     (Some (Errorf ''Missing collection - no place to save record!''), driver0, sys0) \<and>
   Write marshal_id driver0 sys0 ''users'' [] ''{}'' =
     (Some (Errorf ''Missing resource - unable to save record (no name)!''), driver0, sys0)"
  using Write_missing_argument [where collection = "[]" and resource = "''Kamo''"
      and MarshalIndent = marshal_id and d = driver0 and w = sys0 and v = "''{}''"]
    Write_missing_argument [where collection = "''users''" and resource = "[]"
      and MarshalIndent = marshal_id and d = driver0 and w = sys0 and v = "''{}''"]
  by simp

section \<open>Running the examples\<close>

text \<open>The equations that evaluate the model on a concrete system.\<close>

lemmas eval_defs =
  Write_def getOrCreateMutex_def emit_def Write_locked_def os_MkdirAll.simps os_Mkdir_def
  parent_dir_def apply_at_def Join_def Clean_def render_def clean_elements_def clean_step.simps
  elements_def IsRooted_def Separator_def resolve_def walk_def walk_step.simps mkdir_at_def
  ioutil_WriteFile_def write_at_def os_Rename_def rename_at_def replace_by_def prune_at_def
  quoted_def os_Stat_def ioutil_ReadFile_def ioutil_ReadDir_def os_Remove_def remove_at_def
  os_RemoveAll_def endsWithDot_def empty_at_def Read_def ReadAll_def Delete_def New_def
  marshal_id_def marshal_fail_def unmarshal_line_def

lemma Write_Kamo: "Write marshal_id driver0 sys_db ''users'' ''Kamo'' ''{}'' = (None, driver1, sys1)"
  by (simp add: eval_defs driver0_def sys_db_def driver1_def sys1_def)

section \<open>Properties of \<open>Write\<close>: what a successful call leaves on disk\<close>

text \<open>
  Claim C5. After a successful \<open>Write(collection, resource, v)\<close> the file at
  \<open>root/collection/resource.json\<close> is a regular file whose bytes are the output
  of \<open>json.MarshalIndent\<close> on \<open>v\<close> followed by one newline byte (\<open>0x0A\<close>)
  and nothing else.
\<close>

theorem Write_stores_indented_bytes:
  assumes "Write MarshalIndent d w collection resource v = (None, d', w')"
  shows "\<exists>b. MarshalIndent v = Inr b \<and>
           ioutil_ReadFile w' (Join [dir d, collection, resource @ ''.json'']) =
             Inr (b @ [CHR 0x0A])"
proof -
  from Write_success [OF assms] obtain b where
    c: "collection \<noteq> []" and cw: "cwd w' = cwd w" and b: "MarshalIndent v = Inr b"
    and l: "lookup (tree w') (resolve (cwd w) (Join [dir d, collection, resource @ ''.json''])) =
              Inr (File (b @ [CHR 0x0A]))"
    by blast
  from c have "Join [dir d, collection, resource @ ''.json''] \<noteq> []"
    by (simp add: Join3_not_Nil)
  with l cw b show ?thesis
    by (simp add: ioutil_ReadFile_def)
qed

theorem Write_stores_indented_bytes_witness:
  "Write marshal_id driver0 sys_db ''users'' ''Kamo'' ''{}'' = (None, driver1, sys1) \<and>
   (\<exists>b. marshal_id ''{}'' = Inr b \<and>
      ioutil_ReadFile sys1 (Join [dir driver0, ''users'', ''Kamo'' @ ''.json'']) =
        Inr (b @ [CHR 0x0A]))"
  using Write_stores_indented_bytes [OF Write_Kamo] Write_Kamo by simp

text \<open>
  Claim C2, as amended. After a successful \<open>Write(collection, resource, v)\<close> (which
  needs both names non-empty and \<open>v\<close> serializable), \<open>Read(collection, resource,
  out)\<close> on the driver and system left by the write finds the record and returns
  exactly what \<open>json.Unmarshal\<close> makes, in the container \<open>out\<close>, of the bytes that
  \<open>json.MarshalIndent\<close> gave for \<open>v\<close>, followed by the newline. So \<open>Read\<close> succeeds
  and yields \<open>v\<close> whenever \<open>encoding/json\<close> itself gives \<open>v\<close> back from its own
  output, and only then.
\<close>

theorem Write_Read_round_trip:
  assumes "Write MarshalIndent d w collection resource v = (None, d', w')"
  shows "\<exists>b. MarshalIndent v = Inr b \<and>
           Read Unmarshal d' w' collection resource out =
             (case Unmarshal (b @ [CHR 0x0A]) out of
                (None, v') \<Rightarrow> (None, v')
              | (Some err, v') \<Rightarrow> (Some (JsonError err), v')) \<and>
           (Unmarshal (b @ [CHR 0x0A]) out = (None, v) \<longrightarrow>
              Read Unmarshal d' w' collection resource out = (None, v)) \<and>
           (Read Unmarshal d' w' collection resource out = (None, v) \<longrightarrow>
              Unmarshal (b @ [CHR 0x0A]) out = (None, v))"
proof -
  from Write_success [OF assms] obtain b where
    c: "collection \<noteq> []" and r: "resource \<noteq> []" and d: "dir d' = dir d"
    and cw: "cwd w' = cwd w" and b: "MarshalIndent v = Inr b"
    and l: "lookup (tree w') (resolve (cwd w) (Join [dir d, collection, resource @ ''.json''])) =
              Inr (File (b @ [CHR 0x0A]))"
    by blast
  from c have "Join [dir d, collection, resource @ ''.json''] \<noteq> []"
    by (simp add: Join3_not_Nil)
  with c r d cw l have rd: "Read Unmarshal d' w' collection resource out =
      (case Unmarshal (b @ [CHR 0x0A]) out of
         (None, v') \<Rightarrow> (None, v')
       | (Some err, v') \<Rightarrow> (Some (JsonError err), v'))"
    by (simp add: Read_def os_Stat_def ioutil_ReadFile_def)
  have "Read Unmarshal d' w' collection resource out = (None, v) \<longleftrightarrow>
      Unmarshal (b @ [CHR 0x0A]) out = (None, v)"
    unfolding rd by (cases "Unmarshal (b @ [CHR 0x0A]) out") (auto split: option.splits)
  with b rd show ?thesis by blast
qed

theorem Write_Read_round_trip_witness:
  "Write marshal_id driver0 sys_db ''users'' ''Kamo'' ''{}'' = (None, driver1, sys1) \<and>
   marshal_id ''{}'' = Inr ''{}'' \<and>
   unmarshal_line (''{}'' @ [CHR 0x0A]) [] = (None, ''{}'') \<and>
   Read unmarshal_line driver1 sys1 ''users'' ''Kamo'' [] = (None, ''{}'')"
proof -
  have m: "marshal_id ''{}'' = Inr ''{}''" by (simp add: marshal_id_def)
  have u: "unmarshal_line (''{}'' @ [CHR 0x0A]) [] = (None, ''{}'')"
    by (simp add: unmarshal_line_def)
  from Write_Read_round_trip [where Unmarshal = unmarshal_line and out = "[]", OF Write_Kamo] m u
  have "Read unmarshal_line driver1 sys1 ''users'' ''Kamo'' [] = (None, ''{}'')"
    by auto
  with Write_Kamo m u show ?thesis by blast
qed

text \<open>
  Writing the empty \<open>json.Number\<close> as the record \<open>Age\<close> of the collection
  \<open>users\<close>, and reading it back into a \<open>json.Number\<close>.
\<close>

lemma Write_Number:
  "Write marshal_Number driver0 sys_db ''users'' ''Age'' [] = (None, driver1, sys_number)"
  by (simp add: eval_defs marshal_Number_def isValidNumber_def is_digit_def driver0_def
      sys_db_def driver1_def sys_number_def)

lemma Read_Number:
  "Read unmarshal_Number driver1 sys_number ''users'' ''Age'' [] = (None, ''0'')"
  by code_simp

text \<open>
  Claim C2 as stated fails on a value that \<open>encoding/json\<close> does not give back: the
  empty \<open>json.Number\<close> is serializable, \<open>Write\<close> stores it as \<open>0\<close> and a newline,
  and \<open>Read\<close> into a \<open>json.Number\<close> succeeds with the number \<open>0\<close>, which is not the
  empty one that was written. (A \<open>User\<close> with an empty \<open>Age\<close> or \<open>Pincode\<close> comes
  back changed in the same way.)
\<close>

theorem Write_Read_round_trip_counterexample:
  "marshal_Number [] = Inr ''0'' \<and>
   Write marshal_Number driver0 sys_db ''users'' ''Age'' [] = (None, driver1, sys_number) \<and>
   Read unmarshal_Number driver1 sys_number ''users'' ''Age'' [] = (None, ''0'') \<and>
   ''0'' \<noteq> ([] :: string)"
proof -
  have "marshal_Number [] = Inr ''0''" by code_simp
  with Write_Number Read_Number show ?thesis by simp
qed

section \<open>Properties of \<open>Write\<close>: a value that cannot be serialized\<close>

text \<open>
  Claim C3, as amended. \<open>Write\<close> calls \<open>os.MkdirAll\<close> on the collection
  directory before it serializes. So for non-empty names and a value whose
  serialization fails, \<open>Write\<close> returns the error of \<open>os.MkdirAll\<close> if that
  fails and the serialization error otherwise, and the file tree afterwards is the
  one \<open>os.MkdirAll\<close> left: the collection directory and its missing parents may
  have been created. No regular file is created, changed or removed: every location
  holds a file with some content afterwards exactly if it did so before, which
  covers the temporary file and the record file.
\<close>

theorem Write_serialization_failure:
  assumes "collection \<noteq> []" and "resource \<noteq> []" and "MarshalIndent v = Inl msg"
    and "Write MarshalIndent d w collection resource v = (err, d', w')"
  shows "err = (case fst (os_MkdirAll w (Join [dir d, collection])) of
                  Some e \<Rightarrow> Some e
                | None \<Rightarrow> Some (JsonError msg)) \<and>
         tree w' = tree (snd (os_MkdirAll w (Join [dir d, collection]))) \<and>
         (\<forall>q b. (lookup (tree w') q = Inr (File b)) = (lookup (tree w) q = Inr (File b)))"
proof -
  obtain m d1 w1 where g: "getOrCreateMutex d w collection = (m, d1, w1)"
    by (cases "getOrCreateMutex d w collection") auto
  note fr = getOrCreateMutex_frame [OF g]
  let ?w2 = "emit (Lock (CollectionMutex m)) w1"
  let ?dir = "Join [dir d, collection]"
  obtain e0 w0 where mk: "os_MkdirAll ?w2 ?dir = (e0, w0)"
    by (cases "os_MkdirAll ?w2 ?dir") auto
  have same: "fst (os_MkdirAll w ?dir) = e0" "tree (snd (os_MkdirAll w ?dir)) = tree w0"
    using os_MkdirAll_same_tree [of ?w2 w ?dir] mk by (simp_all add: fr)
  have files: "(lookup (tree w0) q = Inr (File b)) = (lookup (tree w) q = Inr (File b))" for q b
    using os_MkdirAll_files [OF mk, of q b] by (simp add: fr)
  have res: "err = (case e0 of Some e \<Rightarrow> Some e | None \<Rightarrow> Some (JsonError msg))"
    and w': "tree w' = tree w0"
    using assms g mk by (auto simp: Write_def Write_locked_def Let_def fr split: option.splits)
  from res w' same files show ?thesis by simp
qed

lemma Write_fail_Kamo:
  "Write marshal_fail driver0 sys_db ''users'' ''Kamo'' ''{}'' =
     (Some (JsonError ''json: unsupported value''), driver1, sys2)"
  by (simp add: eval_defs driver0_def sys_db_def driver1_def sys2_def)

theorem Write_serialization_failure_witness:
  "''users'' \<noteq> [] \<and> ''Kamo'' \<noteq> [] \<and>
   marshal_fail ''{}'' = Inl ''json: unsupported value'' \<and>
   Write marshal_fail driver0 sys_db ''users'' ''Kamo'' ''{}'' =
     (Some (JsonError ''json: unsupported value''), driver1, sys2) \<and>
   fst (os_MkdirAll sys_db (Join [dir driver0, ''users''])) = None \<and>
   tree sys2 = tree (snd (os_MkdirAll sys_db (Join [dir driver0, ''users'']))) \<and>
   (\<forall>q b. (lookup (tree sys2) q = Inr (File b)) = (lookup (tree sys_db) q = Inr (File b)))"
proof -
  have n: "''users'' \<noteq> []" "''Kamo'' \<noteq> []" by simp_all
  have m: "marshal_fail ''{}'' = Inl ''json: unsupported value''"
    by (simp add: marshal_fail_def)
  have mk: "fst (os_MkdirAll sys_db (Join [dir driver0, ''users''])) = None"
    by (simp add: eval_defs driver0_def sys_db_def)
  have "tree sys2 = tree (snd (os_MkdirAll sys_db (Join [dir driver0, ''users''])))"
    using Write_serialization_failure [OF n m Write_fail_Kamo] by blast
  moreover
  have "\<forall>q b. (lookup (tree sys2) q = Inr (File b)) = (lookup (tree sys_db) q = Inr (File b))"
    using Write_serialization_failure [OF n m Write_fail_Kamo] by blast
  ultimately show ?thesis using n m mk Write_fail_Kamo by blast
qed

text \<open>
  Claim C3 as stated fails: with the database directory in place and no collection
  directory yet, a \<open>Write\<close> whose serialization fails returns the serialization
  error and has created the collection directory \<open>Users/users\<close>.
\<close>

theorem Write_serialization_failure_counterexample:
  "marshal_fail ''{}'' = Inl ''json: unsupported value'' \<and>
   Write marshal_fail driver0 sys_db ''users'' ''Kamo'' ''{}'' =
     (Some (JsonError ''json: unsupported value''), driver1, sys2) \<and>
   os_Stat sys_db (Join [dir driver0, ''users'']) = Inl (PathError ''stat'' ''Users/users'' ENOENT) \<and>
   os_Stat sys2 (Join [dir driver0, ''users'']) = Inr (Dir []) \<and>
   tree sys2 \<noteq> tree sys_db"
proof -
  have "marshal_fail ''{}'' = Inl ''json: unsupported value''"
    by (simp add: marshal_fail_def)
  moreover have "os_Stat sys_db (Join [dir driver0, ''users'']) =
      Inl (PathError ''stat'' ''Users/users'' ENOENT)"
    by (simp add: eval_defs driver0_def sys_db_def)
  moreover have "os_Stat sys2 (Join [dir driver0, ''users'']) = Inr (Dir [])"
    by (simp add: eval_defs driver0_def sys2_def)
  moreover have "tree sys2 \<noteq> tree sys_db"
    by (simp add: sys_db_def sys2_def)
  ultimately show ?thesis using Write_fail_Kamo by blast
qed

section \<open>Properties of \<open>Delete\<close>: a record written by \<open>Write\<close>\<close>

lemma Delete_Kamo_error:
  "fst (Delete driver1 sys1 ''users'' ''Kamo'') =
     Some (Errorf (''unable to find file or directory named users/Kamo'' @ [CHR 0x0A]))"
  by code_simp

lemma Delete_Kamo_tree:
  "tree (snd (snd (Delete driver1 sys1 ''users'' ''Kamo''))) = tree sys1"
  by code_simp

lemma Delete_Kamo_Read:
  "Read unmarshal_line driver1 (snd (snd (Delete driver1 sys1 ''users'' ''Kamo''))) ''users'' ''Kamo'' [] =
     (None, ''{}'')"
  by code_simp

text \<open>
  Claim C1 asks that \<open>Delete\<close> removes a record file that \<open>Write\<close> created, so
  that a later \<open>Read\<close> does not find it. The code does not: \<open>Write("users",
  "Kamo", v)\<close> creates \<open>Users/users/Kamo.json\<close>, but \<open>Delete("users", "Kamo")\<close>
  stats \<open>Users/users/Kamo\<close>, without the suffix, finds nothing, and returns
  "unable to find file or directory named users/Kamo". The file tree is as before
  and \<open>Read("users", "Kamo", _)\<close> still succeeds. (The branch for a regular file
  removes the path with \<open>.json\<close> appended, so the suffix was meant to be there.)
\<close>

theorem Delete_misses_written_record:
  "Write marshal_id driver0 sys_db ''users'' ''Kamo'' ''{}'' = (None, driver1, sys1) \<and>
   fst (Delete driver1 sys1 ''users'' ''Kamo'') =
     Some (Errorf (''unable to find file or directory named users/Kamo'' @ [CHR 0x0A])) \<and>
   tree (snd (snd (Delete driver1 sys1 ''users'' ''Kamo''))) = tree sys1 \<and>
   Read unmarshal_line driver1 (snd (snd (Delete driver1 sys1 ''users'' ''Kamo'')))
     ''users'' ''Kamo'' [] = (None, ''{}'')"
  using Write_Kamo Delete_Kamo_error Delete_Kamo_tree Delete_Kamo_Read by blast

section \<open>Properties of \<open>ReadAll\<close>\<close>

lemma ReadAll_loop_only_directories:
  "\<forall>file\<in>set files. IsDir (snd file) \<Longrightarrow> ReadAll_loop Unmarshal w cdir files users = Inr users"
  by (induction files) simp_all

lemma set_clearjunk: "(name, n) \<in> set (AList.clearjunk es) \<Longrightarrow> map_of es name = Some n"
  using graph_map_of [of es] by (auto simp: Map.graph_def)

lemma os_Stat_Inr:
  "os_Stat w p = Inr n \<Longrightarrow> p \<noteq> [] \<and> lookup (tree w) (resolve (cwd w) p) = Inr n"
  by (auto simp: os_Stat_def split: if_splits sum.splits)

lemma lookup_errno: "lookup t loc = Inl en \<Longrightarrow> en = ENOENT \<or> en = ENOTDIR"
proof (induction loc arbitrary: t)
  case Nil
  then show ?case by simp
next
  case (Cons c loc)
  then show ?case by (cases t) (auto split: option.splits)
qed

text \<open>
  Claim C6, as amended. For a non-empty collection name there are three cases at
  the path of the collection directory. If nothing exists there, \<open>ReadAll\<close>
  returns the error of \<open>os.Stat\<close> on that path, whose cause is \<open>ENOENT\<close> (or
  \<open>ENOTDIR\<close> where a file stands in the way), the spec's NotFound. If a regular
  file stands there, \<open>os.Stat\<close> succeeds and \<open>ReadAll\<close> returns the error of
  \<open>ioutil.ReadDir\<close>, not a directory. If the collection directory exists and
  holds no regular file (it is empty, or all its entries are directories),
  \<open>ReadAll\<close> returns the empty sequence and no error.
\<close>

theorem ReadAll_missing_or_empty_collection:
  assumes "collection \<noteq> []"
  shows "(lookup (tree w) (resolve (cwd w) (Join [dir d, collection])) = Inl en \<longrightarrow>
            ReadAll Unmarshal d w collection =
              Inl (PathError ''stat'' (Join [dir d, collection]) en) \<and>
            (en = ENOENT \<or> en = ENOTDIR)) \<and>
         (os_Stat w (Join [dir d, collection]) = Inr (File b) \<longrightarrow>
            ReadAll Unmarshal d w collection =
              Inl (PathError ''readdirent'' (Join [dir d, collection]) ENOTDIR)) \<and>
         (os_Stat w (Join [dir d, collection]) = Inr (Dir es) \<and>
            (\<forall>name n. map_of es name = Some n \<longrightarrow> IsDir n) \<longrightarrow>
            ReadAll Unmarshal d w collection = Inr [])"
proof (intro conjI impI)
  assume l: "lookup (tree w) (resolve (cwd w) (Join [dir d, collection])) = Inl en"
  then show "ReadAll Unmarshal d w collection =
      Inl (PathError ''stat'' (Join [dir d, collection]) en)"
    using assms by (simp add: ReadAll_def os_Stat_def Join2_not_Nil)
  from l show "en = ENOENT \<or> en = ENOTDIR" by (rule lookup_errno)
next
  assume s: "os_Stat w (Join [dir d, collection]) = Inr (File b)"
  then have "ioutil_ReadDir w (Join [dir d, collection]) =
      Inl (PathError ''readdirent'' (Join [dir d, collection]) ENOTDIR)"
    by (auto simp: ioutil_ReadDir_def dest!: os_Stat_Inr)
  with s assms show "ReadAll Unmarshal d w collection =
      Inl (PathError ''readdirent'' (Join [dir d, collection]) ENOTDIR)"
    by (simp add: ReadAll_def)
next
  assume a: "os_Stat w (Join [dir d, collection]) = Inr (Dir es) \<and>
      (\<forall>name n. map_of es name = Some n \<longrightarrow> IsDir n)"
  let ?files = "sort_key fst (AList.clearjunk es)"
  from a have rd: "ioutil_ReadDir w (Join [dir d, collection]) = Inr ?files"
    by (auto simp: ioutil_ReadDir_def dest!: os_Stat_Inr)
  have "\<forall>file\<in>set ?files. IsDir (snd file)"
    using a by (auto dest: set_clearjunk)
  then have "ReadAll_loop Unmarshal w (Join [dir d, collection]) ?files [] = Inr []"
    by (rule ReadAll_loop_only_directories)
  with a rd assms show "ReadAll Unmarshal d w collection = Inr []"
    by (simp add: ReadAll_def)
qed

theorem ReadAll_missing_or_empty_collection_witness:
  "''users'' \<noteq> [] \<and>
   lookup (tree sys_db) (resolve (cwd sys_db) (Join [dir driver0, ''users''])) = Inl ENOENT \<and>
   ReadAll unmarshal_name driver0 sys_db ''users'' =
     Inl (PathError ''stat'' (Join [dir driver0, ''users'']) ENOENT) \<and>
   ''users/Kamzo.json'' \<noteq> [] \<and>
   os_Stat sys3 (Join [dir driver1, ''users/Kamzo.json'']) = Inr (File (''Kamzo'' @ [CHR 0x0A])) \<and>
   ReadAll unmarshal_name driver1 sys3 ''users/Kamzo.json'' =
     Inl (PathError ''readdirent'' (Join [dir driver1, ''users/Kamzo.json'']) ENOTDIR) \<and>
   os_Stat sys2 (Join [dir driver1, ''users'']) = Inr (Dir []) \<and>
   ReadAll unmarshal_name driver1 sys2 ''users'' = Inr []"
proof -
  have n: "''users'' \<noteq> []" by simp
  have m: "''users/Kamzo.json'' \<noteq> []" by simp
  have l: "lookup (tree sys_db) (resolve (cwd sys_db) (Join [dir driver0, ''users''])) = Inl ENOENT"
    by code_simp
  have f: "os_Stat sys3 (Join [dir driver1, ''users/Kamzo.json'']) =
      Inr (File (''Kamzo'' @ [CHR 0x0A]))"
    by code_simp
  have s: "os_Stat sys2 (Join [dir driver1, ''users'']) = Inr (Dir [])"
    by code_simp
  have e: "\<forall>name n. map_of ([] :: (string \<times> node) list) name = Some n \<longrightarrow> IsDir n"
    by simp
  from ReadAll_missing_or_empty_collection [OF n, where w = sys_db and d = driver0
      and en = ENOENT and Unmarshal = unmarshal_name] l
  have 1: "ReadAll unmarshal_name driver0 sys_db ''users'' =
      Inl (PathError ''stat'' (Join [dir driver0, ''users'']) ENOENT)"
    by blast
  from ReadAll_missing_or_empty_collection [OF m, where w = sys3 and d = driver1
      and b = "''Kamzo'' @ [CHR 0x0A]" and Unmarshal = unmarshal_name] f
  have 2: "ReadAll unmarshal_name driver1 sys3 ''users/Kamzo.json'' =
      Inl (PathError ''readdirent'' (Join [dir driver1, ''users/Kamzo.json'']) ENOTDIR)"
    by blast
  from ReadAll_missing_or_empty_collection [OF n, where w = sys2 and d = driver1
      and es = "[]" and Unmarshal = unmarshal_name] s e
  have 3: "ReadAll unmarshal_name driver1 sys2 ''users'' = Inr []"
    by blast
  from n l 1 m f 2 s 3 show ?thesis by blast
qed

text \<open>
  Claim C6 as stated fails where a regular file stands at the path of the
  collection directory. After \<open>Write("users", "Kamo", v)\<close> the collection
  \<open>users/Kamo.json\<close> has no directory, its path is the record file; \<open>os.Stat\<close>
  succeeds on it, and \<open>ReadAll("users/Kamo.json")\<close> returns the error of
  \<open>ioutil.ReadDir\<close> on a file, which is not the error of \<open>os.Stat\<close> that is the
  spec's NotFound.
\<close>

theorem ReadAll_missing_or_empty_collection_counterexample:
  "Write marshal_id driver0 sys_db ''users'' ''Kamo'' ''{}'' = (None, driver1, sys1) \<and>
   Join [dir driver1, ''users/Kamo.json''] = ''Users/users/Kamo.json'' \<and>
   os_Stat sys1 ''Users/users/Kamo.json'' = Inr (File (''{}'' @ [CHR 0x0A])) \<and>
   \<not> IsDir (File (''{}'' @ [CHR 0x0A])) \<and>
   ReadAll unmarshal_name driver1 sys1 ''users/Kamo.json'' =
     Inl (PathError ''readdirent'' ''Users/users/Kamo.json'' ENOTDIR) \<and>
   (\<forall>en. ReadAll unmarshal_name driver1 sys1 ''users/Kamo.json'' \<noteq>
     Inl (PathError ''stat'' ''Users/users/Kamo.json'' en))"
proof -
  have j: "Join [dir driver1, ''users/Kamo.json''] = ''Users/users/Kamo.json''"
    by code_simp
  have s: "os_Stat sys1 ''Users/users/Kamo.json'' = Inr (File (''{}'' @ [CHR 0x0A]))"
    by code_simp
  have r: "ReadAll unmarshal_name driver1 sys1 ''users/Kamo.json'' =
      Inl (PathError ''readdirent'' ''Users/users/Kamo.json'' ENOTDIR)"
    by code_simp
  have d: "\<forall>en. ReadAll unmarshal_name driver1 sys1 ''users/Kamo.json'' \<noteq>
      Inl (PathError ''stat'' ''Users/users/Kamo.json'' en)"
    unfolding r by simp
  have "\<not> IsDir (File (''{}'' @ [CHR 0x0A]))" by simp
  with Write_Kamo j s r d show ?thesis by blast
qed

lemma ReadAll_loop_first_malformed:
  assumes "\<not> IsDir (snd file)"
    and "ioutil_ReadFile w (Join [cdir, fst file]) = Inr b"
    and "Unmarshal b zero_User = (Some msg, u)"
    and "\<forall>g\<in>set pre. \<not> IsDir (snd g) \<longrightarrow>
           (\<exists>b' u'. ioutil_ReadFile w (Join [cdir, fst g]) = Inr b' \<and>
                    Unmarshal b' zero_User = (None, u'))"
  shows "ReadAll_loop Unmarshal w cdir (pre @ file # post) users = Inl (JsonError msg)"
  using assms(4)
proof (induction pre arbitrary: users)
  case Nil
  with assms(1-3) show ?case by simp
next
  case (Cons g pre)
  show ?case
  proof (cases "IsDir (snd g)")
    case True
    with Cons show ?thesis by simp
  next
    case False
    with Cons.prems obtain b' u' where "ioutil_ReadFile w (Join [cdir, fst g]) = Inr b'"
      "Unmarshal b' zero_User = (None, u')"
      by auto
    with False Cons show ?thesis by simp
  qed
qed

text \<open>
  Claim C7. For an existing collection, \<open>ReadAll\<close> goes through the listing of
  the directory in order and skips the subdirectories. If a regular file of the
  listing has content that the decoder rejects, and every regular file before it in
  the listing was read and decoded, then \<open>ReadAll\<close> returns the error of that
  first malformed record; the result is the error alone, never a sequence of the
  records decoded so far, whatever follows in the listing.
\<close>

theorem ReadAll_aborts_on_malformed_record:
  assumes "collection \<noteq> []"
    and "os_Stat w (Join [dir d, collection]) = Inr fi"
    and "ioutil_ReadDir w (Join [dir d, collection]) = Inr (pre @ file # post)"
    and "\<not> IsDir (snd file)"
    and "ioutil_ReadFile w (Join [Join [dir d, collection], fst file]) = Inr b"
    and "Unmarshal b zero_User = (Some msg, u)"
    and "\<forall>g\<in>set pre. \<not> IsDir (snd g) \<longrightarrow>
           (\<exists>b' u'. ioutil_ReadFile w (Join [Join [dir d, collection], fst g]) = Inr b' \<and>
                    Unmarshal b' zero_User = (None, u'))"
  shows "ReadAll Unmarshal d w collection = Inl (JsonError msg)"
  using assms(1-3)
    ReadAll_loop_first_malformed [where Unmarshal = Unmarshal and post = post and users = "[]",
      OF assms(4-7)]
  by (simp add: ReadAll_def)

theorem ReadAll_aborts_on_malformed_record_witness:
  "''users'' \<noteq> [] \<and>
   os_Stat sys3 (Join [dir driver1, ''users'']) =
     Inr (Dir [(''Kamzo.json'', File (''Kamzo'' @ [CHR 0x0A])),
            (''Kamo.json'', File (''Kamo'' @ [CHR 0x0A])),
            (''Kamogelo.json'', File ''Kamog''),
            (''Archive'', Dir [(''El.json'', File ''E'')])]) \<and>
   ioutil_ReadDir sys3 (Join [dir driver1, ''users'']) =
     Inr ([(''Archive'', Dir [(''El.json'', File ''E'')]),
           (''Kamo.json'', File (''Kamo'' @ [CHR 0x0A]))] @
          (''Kamogelo.json'', File ''Kamog'') #
          [(''Kamzo.json'', File (''Kamzo'' @ [CHR 0x0A]))]) \<and>
   ioutil_ReadFile sys3 (Join [Join [dir driver1, ''users''], ''Kamogelo.json'']) = Inr ''Kamog'' \<and>
   unmarshal_name ''Kamog'' zero_User = (Some ''unexpected end of JSON input'', zero_User) \<and>
   ReadAll unmarshal_name driver1 sys3 ''users'' = Inl (JsonError ''unexpected end of JSON input'')"
proof -
  let ?pre = "[(''Archive'', Dir [(''El.json'', File ''E'')]),
           (''Kamo.json'', File (''Kamo'' @ [CHR 0x0A]))]"
  let ?file = "(''Kamogelo.json'', File ''Kamog'')"
  let ?post = "[(''Kamzo.json'', File (''Kamzo'' @ [CHR 0x0A]))]"
  have n: "''users'' \<noteq> []" by simp
  have s: "os_Stat sys3 (Join [dir driver1, ''users'']) =
     Inr (Dir [(''Kamzo.json'', File (''Kamzo'' @ [CHR 0x0A])),
            (''Kamo.json'', File (''Kamo'' @ [CHR 0x0A])),
            (''Kamogelo.json'', File ''Kamog''),
            (''Archive'', Dir [(''El.json'', File ''E'')])])"
    by code_simp
  have rd: "ioutil_ReadDir sys3 (Join [dir driver1, ''users'']) = Inr (?pre @ ?file # ?post)"
    by code_simp
  have f: "\<not> IsDir (snd ?file)" by simp
  have rf: "ioutil_ReadFile sys3 (Join [Join [dir driver1, ''users''], fst ?file]) = Inr ''Kamog''"
    by code_simp
  have um: "unmarshal_name ''Kamog'' zero_User = (Some ''unexpected end of JSON input'', zero_User)"
    by (simp add: unmarshal_name_def)
  have p1: "ioutil_ReadFile sys3 (Join [Join [dir driver1, ''users''], ''Kamo.json'']) =
      Inr (''Kamo'' @ [CHR 0x0A])"
    by code_simp
  have p2: "unmarshal_name (''Kamo'' @ [CHR 0x0A]) zero_User = (None, zero_User\<lparr>Name := ''Kamo''\<rparr>)"
    by (simp add: unmarshal_name_def)
  have pre: "\<forall>g\<in>set ?pre. \<not> IsDir (snd g) \<longrightarrow>
           (\<exists>b' u'. ioutil_ReadFile sys3 (Join [Join [dir driver1, ''users''], fst g]) = Inr b' \<and>
                    unmarshal_name b' zero_User = (None, u'))"
    using p1 p2 by simp
  from ReadAll_aborts_on_malformed_record [where Unmarshal = unmarshal_name, OF n s rd f rf um pre]
    n s rd rf um
  show ?thesis by simp
qed

section \<open>Properties of \<open>New\<close>\<close>

text \<open>
  Claim C9, as amended. \<open>New\<close> always returns the driver record, with the cleaned
  path and an empty registry. If \<open>os.Stat\<close> finds anything at the path, a
  directory or a regular file (the source does not test \<open>IsDir\<close>), \<open>New\<close>
  returns no error and leaves the file tree as it is. Otherwise, nothing being at
  the path, it returns whatever \<open>os.MkdirAll\<close> returns, next to the record, and
  the file tree is the one \<open>os.MkdirAll\<close> left: when the error is nil the path is
  a directory afterwards (with its parents, since it is in the tree), and in no
  case is a regular file created, changed or removed.
\<close>

theorem New_creates_or_attaches:
  "fst (fst (New w dir0)) = \<lparr>mutexes = Map.empty, dir = Clean dir0\<rparr> \<and>
   (os_Stat w (Clean dir0) = Inr fi \<longrightarrow>
      snd (fst (New w dir0)) = None \<and> tree (snd (New w dir0)) = tree w) \<and>
   (os_Stat w (Clean dir0) = Inl e \<longrightarrow>
      snd (fst (New w dir0)) = fst (os_MkdirAll w (Clean dir0)) \<and>
      tree (snd (New w dir0)) = tree (snd (os_MkdirAll w (Clean dir0))) \<and>
      (snd (fst (New w dir0)) = None \<longrightarrow>
         (\<exists>es. os_Stat (snd (New w dir0)) (Clean dir0) = Inr (Dir es))) \<and>
      (\<forall>q b. (lookup (tree (snd (New w dir0))) q = Inr (File b)) =
             (lookup (tree w) q = Inr (File b))))"
proof (intro conjI impI)
  show "fst (fst (New w dir0)) = \<lparr>mutexes = Map.empty, dir = Clean dir0\<rparr>"
    by (simp add: New_def Let_def split_def split: sum.splits)
next
  assume "os_Stat w (Clean dir0) = Inr fi"
  then show "snd (fst (New w dir0)) = None" "tree (snd (New w dir0)) = tree w"
    by (simp_all add: New_def Let_def)
next
  assume a: "os_Stat w (Clean dir0) = Inl e"
  let ?w1 = "emit (Log DEBUG (''Creating the database at '' @ quoted (Clean dir0) @ ''...'' @ [CHR 0x0A])) w"
  obtain e1 w1 where mk: "os_MkdirAll ?w1 (Clean dir0) = (e1, w1)"
    by (cases "os_MkdirAll ?w1 (Clean dir0)")
  from a mk have n: "New w dir0 = ((\<lparr>mutexes = Map.empty, dir = Clean dir0\<rparr>, e1), w1)"
    by (simp add: New_def Let_def)
  have same: "fst (os_MkdirAll w (Clean dir0)) = e1"
    "tree (snd (os_MkdirAll w (Clean dir0))) = tree w1"
    using os_MkdirAll_same_tree [of ?w1 w "Clean dir0"] mk by simp_all
  show "snd (fst (New w dir0)) = fst (os_MkdirAll w (Clean dir0))"
    "tree (snd (New w dir0)) = tree (snd (os_MkdirAll w (Clean dir0)))"
    by (simp_all add: n same)
  show "\<exists>es. os_Stat (snd (New w dir0)) (Clean dir0) = Inr (Dir es)"
    if "snd (fst (New w dir0)) = None"
    using that os_MkdirAll_success [of ?w1 "Clean dir0" w1] mk by (simp add: n)
  show "\<forall>q b. (lookup (tree (snd (New w dir0))) q = Inr (File b)) =
             (lookup (tree w) q = Inr (File b))"
    using os_MkdirAll_files [OF mk] by (simp add: n)
qed

theorem New_creates_or_attaches_witness:
  "os_Stat sys_db (Clean ''./Users'') = Inr (Dir []) \<and>
   snd (fst (New sys_db ''./Users'')) = None \<and>
   tree (snd (New sys_db ''./Users'')) = tree sys_db \<and>
   os_Stat sys0 (Clean ''./Users'') = Inl (PathError ''stat'' ''Users'' ENOENT) \<and>
   snd (fst (New sys0 ''./Users'')) = None \<and>
   os_Stat (snd (New sys0 ''./Users'')) (Clean ''./Users'') = Inr (Dir []) \<and>
   os_Stat sys_file (Clean ''./Users/db'') = Inl (PathError ''stat'' ''Users/db'' ENOTDIR) \<and>
   fst (New sys_file ''./Users/db'') =
     (\<lparr>mutexes = Map.empty, dir = ''Users/db''\<rparr>, Some (PathError ''mkdir'' ''Users'' ENOTDIR)) \<and>
   os_Stat sys_file (Clean ''Users/'') = Inr (File ''x'') \<and>
   fst (New sys_file ''Users/'') = (\<lparr>mutexes = Map.empty, dir = ''Users''\<rparr>, None) \<and>
   tree (snd (New sys_file ''Users/'')) = tree sys_file"
proof -
  have 1: "os_Stat sys_db (Clean ''./Users'') = Inr (Dir [])" by code_simp
  have 2: "os_Stat sys0 (Clean ''./Users'') = Inl (PathError ''stat'' ''Users'' ENOENT)"
    by code_simp
  have 3: "os_Stat sys_file (Clean ''./Users/db'') = Inl (PathError ''stat'' ''Users/db'' ENOTDIR)"
    by code_simp
  have 4: "fst (os_MkdirAll sys0 (Clean ''./Users'')) = None" by code_simp
  have 5: "fst (os_MkdirAll sys_file (Clean ''./Users/db'')) =
      Some (PathError ''mkdir'' ''Users'' ENOTDIR)" by code_simp
  have 6: "os_Stat (snd (New sys0 ''./Users'')) (Clean ''./Users'') = Inr (Dir [])" by code_simp
  have 7: "Clean ''./Users/db'' = ''Users/db''" by code_simp
  have 8: "os_Stat sys_file (Clean ''Users/'') = Inr (File ''x'')" by code_simp
  have 9: "Clean ''Users/'' = ''Users''" by code_simp
  from New_creates_or_attaches [of sys_db "''./Users''" "Dir []"] 1
  have a: "snd (fst (New sys_db ''./Users'')) = None \<and>
      tree (snd (New sys_db ''./Users'')) = tree sys_db" by blast
  from New_creates_or_attaches [of sys0 "''./Users''" _ "PathError ''stat'' ''Users'' ENOENT"] 2 4
  have b: "snd (fst (New sys0 ''./Users'')) = None" by simp
  from New_creates_or_attaches [of sys_file "''./Users/db''" _
      "PathError ''stat'' ''Users/db'' ENOTDIR"] 3 5 7
  have c: "fst (New sys_file ''./Users/db'') =
     (\<lparr>mutexes = Map.empty, dir = ''Users/db''\<rparr>, Some (PathError ''mkdir'' ''Users'' ENOTDIR))"
    by (simp add: prod_eq_iff)
  from New_creates_or_attaches [of sys_file "''Users/''" "File ''x''"] 8 9
  have d: "fst (New sys_file ''Users/'') = (\<lparr>mutexes = Map.empty, dir = ''Users''\<rparr>, None)"
    "tree (snd (New sys_file ''Users/'')) = tree sys_file"
    by (simp_all add: prod_eq_iff)
  from 1 2 3 6 8 a b c d show ?thesis by blast
qed

text \<open>
  Claim C9 as stated fails where a regular file stands at the root path. On a disk
  with the file \<open>/home/Users\<close>, the root directory \<open>./Users\<close> does not exist; yet
  \<open>os.Stat\<close> succeeds on the file, so \<open>New("./Users", nil)\<close> returns no error,
  creates nothing, and the path is still the regular file afterwards.
\<close>

theorem New_creates_or_attaches_counterexample:
  "Clean ''./Users'' = ''Users'' \<and>
   os_Stat sys_file ''Users'' = Inr (File ''x'') \<and>
   \<not> IsDir (File ''x'') \<and>
   snd (fst (New sys_file ''./Users'')) = None \<and>
   tree (snd (New sys_file ''./Users'')) = tree sys_file \<and>
   os_Stat (snd (New sys_file ''./Users'')) ''Users'' = Inr (File ''x'')"
proof -
  have "Clean ''./Users'' = ''Users''" by code_simp
  moreover have "os_Stat sys_file ''Users'' = Inr (File ''x'')" by code_simp
  moreover have "\<not> IsDir (File ''x'')" by simp
  moreover have "snd (fst (New sys_file ''./Users'')) = None" by code_simp
  moreover have "tree (snd (New sys_file ''./Users'')) = tree sys_file" by code_simp
  moreover have "os_Stat (snd (New sys_file ''./Users'')) ''Users'' = Inr (File ''x'')"
    by code_simp
  ultimately show ?thesis by blast
qed

section \<open>Properties of \<open>Delete\<close>: the empty resource name\<close>

lemma fold_clean_step_absorb:
  assumes "r' \<longrightarrow> r \<and> st = []"
  shows "fold (clean_step r) (rev (fold (clean_step r') ys [])) st = fold (clean_step r) ys st"
proof (induction ys rule: rev_induct)
  case Nil
  then show ?case by simp
next
  case (snoc c ys)
  define inner where "inner = fold (clean_step r') ys []"
  define L where "L = fold (clean_step r) ys st"
  from snoc have IH: "fold (clean_step r) (rev inner) st = L"
    by (simp add: inner_def L_def)
  have "fold (clean_step r) (rev (clean_step r' c inner)) st = clean_step r c L"
  proof (cases "c = ''..''")
    case False
    then show ?thesis using IH by (simp add: clean_step.simps)
  next
    case True
    show ?thesis
    proof (cases inner)
      case Nil
      with IH have "L = st" by simp
      with Nil True assms show ?thesis
        by (cases r') (simp_all add: clean_step.simps)
    next
      case (Cons t ts)
      show ?thesis
      proof (cases "t = ''..''")
        case True
        with Cons \<open>c = ''..''\<close> IH show ?thesis by (simp add: clean_step.simps)
      next
        case False
        with Cons IH have "t # fold (clean_step r) (rev ts) st = L"
          by (simp add: clean_step.simps)
        then have "clean_step r ''..'' L = fold (clean_step r) (rev ts) st"
          using False by (auto simp: clean_step.simps)
        with Cons False \<open>c = ''..''\<close> show ?thesis
          by (simp add: clean_step.simps)
      qed
    qed
  qed
  then show ?case by (simp add: inner_def L_def)
qed

lemma Clean_cong:
  "IsRooted p = IsRooted q \<Longrightarrow>
   clean_elements (IsRooted p) (elements p) = clean_elements (IsRooted q) (elements q) \<Longrightarrow>
   Clean p = Clean q"
  by (simp add: Clean_def)

lemma elements_Nil [simp]: "elements [] = []"
  by (simp add: elements_def)

lemma Clean_trailing_sep: "c \<noteq> [] \<Longrightarrow> Clean (c @ [Separator]) = Clean c"
  by (rule Clean_cong) (simp_all add: IsRooted_append elements_append_sep)

lemma Clean_Clean: "Clean (Clean p) = Clean p"
proof (rule Clean_cong)
  show "IsRooted (Clean p) = IsRooted p" by (rule IsRooted_Clean)
  show "clean_elements (IsRooted (Clean p)) (elements (Clean p)) =
      clean_elements (IsRooted p) (elements p)"
    using fold_clean_step_absorb [of "IsRooted p" "IsRooted p" "[]" "elements p"]
    by (simp add: IsRooted_Clean elements_Clean clean_elements_def)
qed

lemma Clean_append_Clean:
  assumes "a \<noteq> []"
    and "clean_elements (IsRooted c) (elements c) = clean_elements False (elements c)"
  shows "Clean (a @ Separator # Clean c) = Clean (a @ Separator # c)"
proof (rule Clean_cong)
  show r: "IsRooted (a @ Separator # Clean c) = IsRooted (a @ Separator # c)"
    using assms(1) by (simp add: IsRooted_append)
  have e: "elements (Clean c) = rev (fold (clean_step False) (elements c) [])"
    using assms(2) by (simp add: elements_Clean clean_elements_def)
  have "fold (clean_step (IsRooted a)) (rev (fold (clean_step False) (elements c) []))
          (fold (clean_step (IsRooted a)) (elements a) []) =
        fold (clean_step (IsRooted a)) (elements c)
          (fold (clean_step (IsRooted a)) (elements a) [])"
    by (rule fold_clean_step_absorb) simp
  then show "clean_elements (IsRooted (a @ Separator # Clean c)) (elements (a @ Separator # Clean c)) =
      clean_elements (IsRooted (a @ Separator # c)) (elements (a @ Separator # c))"
    using assms(1)
    by (simp add: IsRooted_append elements_append_sep e clean_elements_def)
qed

lemma Join_Join_empty:
  assumes "\<not> IsRooted c \<or>
      clean_elements True (elements c) = clean_elements False (elements c)"
  shows "Join [a, Join [c, []]] = Join [a, c]"
proof (cases "c = []")
  case True
  then show ?thesis by (simp add: Join2)
next
  case False
  then have j: "Join [c, []] = Clean c"
    using Clean_trailing_sep [of c] by (simp add: Join2)
  from assms have h: "clean_elements (IsRooted c) (elements c) = clean_elements False (elements c)"
    by (cases "IsRooted c") simp_all
  show ?thesis
  proof (cases "a = []")
    case True
    have "Join [a, Clean c] = Clean (Clean c)" using True by (simp add: Join2)
    also have "\<dots> = Join [a, c]" using True False by (simp add: Join2 Clean_Clean)
    finally show ?thesis unfolding j .
  next
    case False
    have "Join [a, Clean c] = Clean (a @ Separator # Clean c)" using False by (simp add: Join2)
    also have "\<dots> = Clean (a @ Separator # c)" using False h by (rule Clean_append_Clean)
    also have "\<dots> = Join [a, c]" using False by (simp add: Join2)
    finally show ?thesis unfolding j .
  qed
qed

lemma endsWithDot_last: "endsWithDot p \<Longrightarrow> last (split_path p) = ''.''"
proof -
  assume "endsWithDot p"
  then consider "p = ''.''" | "length p \<ge> 2" "last p = CHR ''.''" "last (butlast p) = Separator"
    by (auto simp: endsWithDot_def)
  then show ?thesis
  proof cases
    case 1
    then show ?thesis by (simp add: Separator_def)
  next
    case 2
    define bb where "bb = butlast (butlast p)"
    from 2(1) have ne: "p \<noteq> []" "butlast p \<noteq> []" by (auto simp: butlast_conv_take)
    from ne(2) 2(3) have "butlast p = bb @ [Separator]"
      unfolding bb_def by (metis append_butlast_last_id)
    moreover from ne(1) 2(2) have "p = butlast p @ ''.''"
      by (metis append_butlast_last_id)
    ultimately have "p = bb @ Separator # ''.''" by simp
    then have "split_path p = split_path bb @ split_path ''.''"
      by (simp only: split_path_append_sep)
    then show ?thesis by (simp add: Separator_def)
  qed
qed

lemma resolve_ends_in_name:
  assumes "last (split_path p) \<notin> {[], ''.'', ''..''}"
  shows "resolve wd p \<noteq> []"
proof -
  let ?n = "last (split_path p)"
  let ?P = "\<lambda>c. c \<noteq> [] \<and> c \<noteq> ''.''"
  have "filter ?P (split_path p) = filter ?P (butlast (split_path p) @ [?n])" by simp
  also have "\<dots> = filter ?P (butlast (split_path p)) @ filter ?P [?n]" by (rule filter_append)
  also have "filter ?P [?n] = [?n]" using assms by simp
  finally have "elements p = filter ?P (butlast (split_path p)) @ [?n]"
    by (simp only: elements_def)
  moreover have "?n \<noteq> ''..''" using assms by simp
  ultimately show ?thesis
    by (simp add: resolve_def walk_def walk_step.simps)
qed

lemma modify_succeeds:
  "lookup t loc = Inr n \<Longrightarrow> loc \<noteq> [] \<Longrightarrow> f (Some n) = Inr r \<Longrightarrow> \<exists>t'. modify f t loc = Inr t'"
proof (induction loc arbitrary: t)
  case Nil
  then show ?case by simp
next
  case (Cons c cs)
  from Cons.prems(1) obtain es n0 where t: "t = Dir es" and c: "map_of es c = Some n0"
    and l: "lookup n0 cs = Inr n"
    by (cases t) (auto split: option.splits)
  show ?case
  proof (cases cs)
    case Nil
    with t c l Cons.prems(3) show ?thesis by (cases r) auto
  next
    case (Cons c' cs')
    with Cons.IH [OF l _ Cons.prems(3)] obtain n' where "modify f n0 cs = Inr n'" by auto
    with t c Cons show ?thesis by auto
  qed
qed

lemma os_RemoveAll_directory:
  assumes "os_Stat w p = Inr (Dir es)" and "last (split_path p) \<notin> {[], ''.'', ''..''}"
  shows "\<exists>t'. os_RemoveAll w p = (None, w\<lparr>tree := t'\<rparr>) \<and>
           (\<forall>q. lookup t' (resolve (cwd w) p @ q) = Inl ENOENT) \<and>
           (\<forall>q. \<not> prefix (resolve (cwd w) p) q \<and> \<not> prefix q (resolve (cwd w) p) \<longrightarrow>
                 lookup t' q = lookup (tree w) q)"
proof -
  let ?loc = "resolve (cwd w) p"
  from assms(1) have p: "p \<noteq> []" and l: "lookup (tree w) ?loc = Inr (Dir es)"
    by (auto simp: os_Stat_def split: if_splits sum.splits)
  from assms(2) have nd: "\<not> endsWithDot p" using endsWithDot_last [of p] by auto
  from assms(2) have loc: "?loc \<noteq> []" by (rule resolve_ends_in_name)
  from modify_succeeds [OF l loc, of "\<lambda>e. Inr None" None] obtain t' where
    t': "modify (\<lambda>e. Inr None) (tree w) ?loc = Inr t'" by auto
  have "os_RemoveAll w p = (None, w\<lparr>tree := t'\<rparr>)"
    using p nd l loc assms(2) t' by (simp add: os_RemoveAll_def apply_at_def prune_at_def)
  moreover have "lookup t' (?loc @ q) = Inl ENOENT" for q
    using t' by (rule lookup_modify_removed) simp
  moreover have "lookup t' q = lookup (tree w) q" if "\<not> prefix ?loc q" "\<not> prefix q ?loc" for q
    using t' that by (rule lookup_modify_other)
  ultimately show ?thesis by blast
qed

text \<open>
  Claim C10, as amended. Let the collection name either not start with a separator
  or lose no \<open>..\<close> element when it is cleaned as a rooted path (its elements
  cleaned as a rooted path are those cleaned as a relative path, as for \<open>/users\<close>);
  let the collection directory \<open>Join(dir, collection)\<close> exist, and let its path end
  in a name (it is not \<open>.\<close>, not the root \<open>/\<close> and does not end in \<open>..\<close>). Then
  \<open>Delete(collection, "")\<close> checks no argument, its target path is the path of the
  collection directory, it returns no error, and afterwards nothing exists at the
  location of the collection directory or below it, while every location that is
  neither below nor above it is as before.
\<close>

theorem Delete_empty_resource_removes_collection:
  assumes "\<not> IsRooted collection \<or>
      clean_elements True (elements collection) = clean_elements False (elements collection)"
    and "os_Stat w (Join [dir d, collection]) = Inr (Dir es)"
    and "last (split_path (Join [dir d, collection])) \<notin> {[], ''.'', ''..''}"
  shows "Join [dir d, Join [collection, []]] = Join [dir d, collection] \<and>
         fst (Delete d w collection []) = None \<and>
         (\<forall>q. lookup (tree (snd (snd (Delete d w collection []))))
                 (resolve (cwd w) (Join [dir d, collection]) @ q) = Inl ENOENT) \<and>
         (\<forall>q. \<not> prefix (resolve (cwd w) (Join [dir d, collection])) q \<and>
               \<not> prefix q (resolve (cwd w) (Join [dir d, collection])) \<longrightarrow>
               lookup (tree (snd (snd (Delete d w collection [])))) q = lookup (tree w) q)"
proof -
  let ?cdir = "Join [dir d, collection]"
  have j: "Join [dir d, Join [collection, []]] = ?cdir"
    using assms(1) by (rule Join_Join_empty)
  obtain m d1 w1 where g: "getOrCreateMutex d w collection = (m, d1, w1)"
    by (cases "getOrCreateMutex d w collection") auto
  note fr = getOrCreateMutex_frame [OF g]
  let ?w2 = "emit (Lock (CollectionMutex m)) w1"
  have st: "os_Stat ?w2 ?cdir = Inr (Dir es)"
    using assms(2) os_Stat_same_tree [of ?w2 w ?cdir] by (simp add: fr)
  from os_RemoveAll_directory [OF st assms(3)] obtain t' where
    rm: "os_RemoveAll ?w2 ?cdir = (None, ?w2\<lparr>tree := t'\<rparr>)"
    and gone: "\<forall>q. lookup t' (resolve (cwd w) ?cdir @ q) = Inl ENOENT"
    and other: "\<forall>q. \<not> prefix (resolve (cwd w) ?cdir) q \<and> \<not> prefix q (resolve (cwd w) ?cdir) \<longrightarrow>
                 lookup t' q = lookup (tree w) q"
    by (auto simp: fr)
  have "Delete d w collection [] =
      (None, d1, emit (Unlock (CollectionMutex m)) (?w2\<lparr>tree := t'\<rparr>))"
    using g st rm by (simp add: Delete_def Let_def j fr)
  with j gone other show ?thesis by simp
qed

theorem Delete_empty_resource_removes_collection_witness:
  "\<not> IsRooted ''users'' \<and>
   os_Stat sys1 (Join [dir driver1, ''users'']) =
     Inr (Dir [(''Kamo.json'', File (''{}'' @ [CHR 0x0A]))]) \<and>
   last (split_path (Join [dir driver1, ''users''])) = ''users'' \<and>
   Join [dir driver1, Join [''users'', []]] = Join [dir driver1, ''users''] \<and>
   fst (Delete driver1 sys1 ''users'' []) = None \<and>
   resolve (cwd sys1) (Join [dir driver1, ''users'']) = [''home'', ''Users'', ''users''] \<and>
   (\<forall>q. lookup (tree (snd (snd (Delete driver1 sys1 ''users'' []))))
          ([''home'', ''Users'', ''users''] @ q) = Inl ENOENT) \<and>
   IsRooted ''/users'' \<and>
   clean_elements True (elements ''/users'') = clean_elements False (elements ''/users'') \<and>
   os_Stat sys1 (Join [dir driver1, ''/users'']) =
     Inr (Dir [(''Kamo.json'', File (''{}'' @ [CHR 0x0A]))]) \<and>
   last (split_path (Join [dir driver1, ''/users''])) = ''users'' \<and>
   Join [dir driver1, Join [''/users'', []]] = Join [dir driver1, ''/users''] \<and>
   fst (Delete driver1 sys1 ''/users'' []) = None \<and>
   resolve (cwd sys1) (Join [dir driver1, ''/users'']) = [''home'', ''Users'', ''users''] \<and>
   (\<forall>q. lookup (tree (snd (snd (Delete driver1 sys1 ''/users'' []))))
          ([''home'', ''Users'', ''users''] @ q) = Inl ENOENT)"
proof -
  have r: "\<not> IsRooted ''users''" by code_simp
  have s: "os_Stat sys1 (Join [dir driver1, ''users'']) =
     Inr (Dir [(''Kamo.json'', File (''{}'' @ [CHR 0x0A]))])" by code_simp
  have l: "last (split_path (Join [dir driver1, ''users''])) = ''users''" by code_simp
  then have n: "last (split_path (Join [dir driver1, ''users''])) \<notin> {[], ''.'', ''..''}"
    by simp
  have loc: "resolve (cwd sys1) (Join [dir driver1, ''users'']) = [''home'', ''Users'', ''users'']"
    by code_simp
  from Delete_empty_resource_removes_collection [OF disjI1 [OF r] s n]
  have 1: "Join [dir driver1, Join [''users'', []]] = Join [dir driver1, ''users'']"
    and 2: "fst (Delete driver1 sys1 ''users'' []) = None"
    and g: "\<forall>q. lookup (tree (snd (snd (Delete driver1 sys1 ''users'' []))))
          (resolve (cwd sys1) (Join [dir driver1, ''users'']) @ q) = Inl ENOENT"
    by blast+
  have 3: "\<forall>q. lookup (tree (snd (snd (Delete driver1 sys1 ''users'' []))))
          ([''home'', ''Users'', ''users''] @ q) = Inl ENOENT"
    using g unfolding loc .
  have r': "IsRooted ''/users''" by code_simp
  have c': "clean_elements True (elements ''/users'') = clean_elements False (elements ''/users'')"
    by code_simp
  have s': "os_Stat sys1 (Join [dir driver1, ''/users'']) =
     Inr (Dir [(''Kamo.json'', File (''{}'' @ [CHR 0x0A]))])" by code_simp
  have l': "last (split_path (Join [dir driver1, ''/users''])) = ''users''" by code_simp
  then have n': "last (split_path (Join [dir driver1, ''/users''])) \<notin> {[], ''.'', ''..''}"
    by simp
  have loc': "resolve (cwd sys1) (Join [dir driver1, ''/users'']) = [''home'', ''Users'', ''users'']"
    by code_simp
  from Delete_empty_resource_removes_collection [OF disjI2 [OF c'] s' n']
  have 4: "Join [dir driver1, Join [''/users'', []]] = Join [dir driver1, ''/users'']"
    and 5: "fst (Delete driver1 sys1 ''/users'' []) = None"
    and g': "\<forall>q. lookup (tree (snd (snd (Delete driver1 sys1 ''/users'' []))))
          (resolve (cwd sys1) (Join [dir driver1, ''/users'']) @ q) = Inl ENOENT"
    by blast+
  have 6: "\<forall>q. lookup (tree (snd (snd (Delete driver1 sys1 ''/users'' []))))
          ([''home'', ''Users'', ''users''] @ q) = Inl ENOENT"
    using g' unfolding loc' .
  from r s l 1 2 loc 3 r' c' s' l' 4 5 loc' 6 show ?thesis by blast
qed

text \<open>
  Two calls with the root \<open>Users\<close> in the working directory \<open>/home\<close>: one on the
  system left by \<open>Write("users", "Kamo", v)\<close>, one after a further
  \<open>Write("/../b", "Kamo", v)\<close>.
\<close>

lemma Delete_dotdot:
  "\<not> IsRooted ''..''"
  "Join [dir driver1, ''..''] = ''.''"
  "os_Stat sys1 ''.'' =
     Inr (Dir [(''Users'', Dir [(''users'', Dir [(''Kamo.json'', File (''{}'' @ [CHR 0x0A]))])])])"
  "fst (Delete driver1 sys1 ''..'' []) = Some (PathError ''RemoveAll'' ''.'' EINVAL)"
  "tree (snd (snd (Delete driver1 sys1 ''..'' []))) = tree sys1"
  by code_simp+

lemma Write_rooted_dotdot:
  "Write marshal_id driver1 sys1 ''/../b'' ''Kamo'' ''{}'' = (None, driver_b, sys_b)"
  by (simp add: eval_defs driver1_def sys1_def driver_b_def sys_b_def)

lemma Delete_rooted_dotdot:
  "IsRooted ''/../b''"
  "clean_elements True (elements ''/../b'') = [''b'']"
  "clean_elements False (elements ''/../b'') = [''..'', ''b'']"
  "Join [dir driver_b, ''/../b''] = ''b''"
  "os_Stat sys_b ''b'' = Inr (Dir [(''Kamo.json'', File (''{}'' @ [CHR 0x0A]))])"
  "last (split_path ''b'') = ''b''"
  "Join [dir driver_b, Join [''/../b'', []]] = ''Users/b''"
  "fst (Delete driver_b sys_b ''/../b'' []) =
     Some (Errorf (''unable to find file or directory named /b'' @ [CHR 0x0A]))"
  "tree (snd (snd (Delete driver_b sys_b ''/../b'' []))) = tree sys_b"
  by code_simp+

text \<open>
  Claim C10 as stated fails, in two ways. For the collection \<open>..\<close> the collection
  directory is the working directory \<open>.\<close>, which exists; \<open>Delete("..", "")\<close> hands
  it to \<open>os.RemoveAll\<close>, which refuses a path ending in \<open>.\<close>: an error is
  returned and nothing is removed. For the collection \<open>/../b\<close>, into which
  \<open>Write\<close> has stored a record, the collection directory is \<open>b\<close>, which exists
  and whose path ends in a name; but \<open>Delete("/../b", "")\<close> cleans the name on its
  own first, to \<open>/b\<close>, so its target is \<open>Users/b\<close> and not the collection
  directory: it finds nothing there, returns an error and removes nothing.
\<close>

theorem Delete_empty_resource_counterexample:
  "\<not> IsRooted ''..'' \<and>
   Join [dir driver1, ''..''] = ''.'' \<and>
   os_Stat sys1 ''.'' =
     Inr (Dir [(''Users'', Dir [(''users'', Dir [(''Kamo.json'', File (''{}'' @ [CHR 0x0A]))])])]) \<and>
   fst (Delete driver1 sys1 ''..'' []) = Some (PathError ''RemoveAll'' ''.'' EINVAL) \<and>
   tree (snd (snd (Delete driver1 sys1 ''..'' []))) = tree sys1 \<and>
   Write marshal_id driver1 sys1 ''/../b'' ''Kamo'' ''{}'' = (None, driver_b, sys_b) \<and>
   IsRooted ''/../b'' \<and>
   clean_elements True (elements ''/../b'') = [''b''] \<and>
   clean_elements False (elements ''/../b'') = [''..'', ''b''] \<and>
   Join [dir driver_b, ''/../b''] = ''b'' \<and>
   os_Stat sys_b ''b'' = Inr (Dir [(''Kamo.json'', File (''{}'' @ [CHR 0x0A]))]) \<and>
   last (split_path ''b'') = ''b'' \<and>
   Join [dir driver_b, Join [''/../b'', []]] = ''Users/b'' \<and>
   fst (Delete driver_b sys_b ''/../b'' []) =
     Some (Errorf (''unable to find file or directory named /b'' @ [CHR 0x0A])) \<and>
   tree (snd (snd (Delete driver_b sys_b ''/../b'' []))) = tree sys_b"
  using Delete_dotdot Write_rooted_dotdot Delete_rooted_dotdot by blast

section \<open>Properties of the lock registry\<close>

lemma initial_run_inv: "registry_inv (initial_run d h n)"
  by (simp add: registry_inv_def initial_run_def)

lemma pc_ok_other:
  assumes "pc_ok reg h u p" and "\<not> critical p"
    and "\<And>c m. reg c = Some m \<Longrightarrow> reg' c = Some m"
  shows "pc_ok reg' h' u p"
  using assms by (cases p) auto

lemma critical_holder: "pc_ok reg h u p \<Longrightarrow> critical p \<Longrightarrow> h = Some u"
  by (cases p) auto

lemma exec_inv:
  assumes "exec a s = Some s'" and "registry_inv s"
  shows "registry_inv s'"
proof (cases a)
  case (Call t c)
  with assms(1) have t: "t < length (pcs s)"
    and s': "s' = s\<lparr>pcs := (pcs s)[t := AtLock c]\<rparr>"
    by (auto split: if_splits pc.splits)
  show ?thesis
    unfolding registry_inv_def
  proof (intro allI impI)
    fix u assume "u < length (pcs s')"
    then have u: "u < length (pcs s)" by (simp add: s')
    with assms(2) have "pc_ok (mutexes (shared s)) (holder s) u (pcs s ! u)"
      by (simp add: registry_inv_def)
    then show "pc_ok (mutexes (shared s')) (holder s') u (pcs s' ! u)"
      using u by (cases "u = t") (simp_all add: s')
  qed
next
  case (Step t)
  with assms(1) have t: "t < length (pcs s)" by (auto split: if_splits)
  from assms(2) t have okt: "pc_ok (mutexes (shared s)) (holder s) t (pcs s ! t)"
    by (simp add: registry_inv_def)
  have others: "pc_ok (mutexes (shared s)) (holder s) u (pcs s ! u)" if "u < length (pcs s)" for u
    using assms(2) that by (simp add: registry_inv_def)
  show ?thesis
  proof (cases "pcs s ! t")
    case Idle
    with assms(1) Step t show ?thesis by simp
  next
    case (Returned c m)
    with assms(1) Step t show ?thesis by simp
  next
    case (AtLock c)
    with assms(1) Step t have h: "holder s = None"
      and s': "s' = s\<lparr>holder := Some t, pcs := (pcs s)[t := AtLookup c]\<rparr>"
      by (auto split: if_splits)
    show ?thesis
      unfolding registry_inv_def
    proof (intro allI impI)
      fix u assume "u < length (pcs s')"
      then have u: "u < length (pcs s)" by (simp add: s')
      show "pc_ok (mutexes (shared s')) (holder s') u (pcs s' ! u)"
      proof (cases "u = t")
        case True
        with u show ?thesis by (simp add: s')
      next
        case False
        have "\<not> critical (pcs s ! u)"
          using critical_holder [OF others [OF u]] h by auto
        with others [OF u] have "pc_ok (mutexes (shared s)) (Some t) u (pcs s ! u)"
          by (rule pc_ok_other) simp
        with False u show ?thesis by (simp add: s')
      qed
    qed
  next
    case (AtLookup c)
    with assms(1) Step t have
      s': "s' = s\<lparr>pcs := (pcs s)[t := AtTest c (mutexes (shared s) c)]\<rparr>"
      by simp
    show ?thesis
      unfolding registry_inv_def
    proof (intro allI impI)
      fix u assume "u < length (pcs s')"
      then have u: "u < length (pcs s)" by (simp add: s')
      show "pc_ok (mutexes (shared s')) (holder s') u (pcs s' ! u)"
        using others [OF u] okt u AtLookup by (cases "u = t") (simp_all add: s')
    qed
  next
    case (AtTest c v)
    show ?thesis
    proof (cases v)
      case None
      with AtTest assms(1) Step t have
        s': "s' = s\<lparr>allocated := Suc (allocated s), pcs := (pcs s)[t := AtStore c (allocated s)]\<rparr>"
        by simp
      show ?thesis
        unfolding registry_inv_def
      proof (intro allI impI)
        fix u assume "u < length (pcs s')"
        then have u: "u < length (pcs s)" by (simp add: s')
        show "pc_ok (mutexes (shared s')) (holder s') u (pcs s' ! u)"
          using others [OF u] okt u AtTest None by (cases "u = t") (simp_all add: s')
      qed
    next
      case (Some m)
      with AtTest assms(1) Step t have
        s': "s' = s\<lparr>pcs := (pcs s)[t := AtReturn c m]\<rparr>"
        by simp
      show ?thesis
        unfolding registry_inv_def
      proof (intro allI impI)
        fix u assume "u < length (pcs s')"
        then have u: "u < length (pcs s)" by (simp add: s')
        show "pc_ok (mutexes (shared s')) (holder s') u (pcs s' ! u)"
          using others [OF u] okt u AtTest Some by (cases "u = t") (simp_all add: s')
      qed
    qed
  next
    case (AtStore c m)
    with assms(1) Step t have
      s': "s' = s\<lparr>shared := (shared s)\<lparr>mutexes := (mutexes (shared s))(c \<mapsto> m)\<rparr>,
                    pcs := (pcs s)[t := AtReturn c m]\<rparr>"
      by simp
    from okt AtStore have h: "holder s = Some t" and free: "mutexes (shared s) c = None"
      by simp_all
    show ?thesis
      unfolding registry_inv_def
    proof (intro allI impI)
      fix u assume "u < length (pcs s')"
      then have u: "u < length (pcs s)" by (simp add: s')
      show "pc_ok (mutexes (shared s')) (holder s') u (pcs s' ! u)"
      proof (cases "u = t")
        case True
        with u h show ?thesis by (simp add: s')
      next
        case False
        have "\<not> critical (pcs s ! u)"
          using critical_holder [OF others [OF u]] h False by auto
        with others [OF u]
        have "pc_ok ((mutexes (shared s))(c \<mapsto> m)) (holder s) u (pcs s ! u)"
          by (rule pc_ok_other) (use free in auto)
        with False u show ?thesis by (simp add: s')
      qed
    qed
  next
    case (AtReturn c m)
    with assms(1) Step t have
      s': "s' = s\<lparr>holder := None, pcs := (pcs s)[t := Returned c m]\<rparr>"
      by simp
    from okt AtReturn have h: "holder s = Some t" and reg: "mutexes (shared s) c = Some m"
      by simp_all
    show ?thesis
      unfolding registry_inv_def
    proof (intro allI impI)
      fix u assume "u < length (pcs s')"
      then have u: "u < length (pcs s)" by (simp add: s')
      show "pc_ok (mutexes (shared s')) (holder s') u (pcs s' ! u)"
      proof (cases "u = t")
        case True
        with u reg show ?thesis by (simp add: s')
      next
        case False
        have "\<not> critical (pcs s ! u)"
          using critical_holder [OF others [OF u]] h False by auto
        with others [OF u] have "pc_ok (mutexes (shared s)) None u (pcs s ! u)"
          by (rule pc_ok_other) simp
        with False u show ?thesis by (simp add: s')
      qed
    qed
  qed
qed

lemma exec_keeps_entries:
  assumes "exec a s = Some s'" and "registry_inv s" and "mutexes (shared s) c = Some m"
  shows "mutexes (shared s') c = Some m"
proof (cases a)
  case (Call t c')
  with assms(1) have "shared s' = shared s"
    by (auto split: if_splits pc.splits)
  with assms(3) show ?thesis by simp
next
  case (Step t)
  with assms(1) have t: "t < length (pcs s)" by (auto split: if_splits)
  from assms(2) t have okt: "pc_ok (mutexes (shared s)) (holder s) t (pcs s ! t)"
    by (simp add: registry_inv_def)
  show ?thesis
  proof (cases "pcs s ! t")
    case (AtStore c' m')
    with okt have "mutexes (shared s) c' = None" by simp
    with assms(3) have "c' \<noteq> c" by auto
    with AtStore assms(1,3) Step t show ?thesis by auto
  qed (use assms(1,3) Step t in \<open>auto split: if_splits option.splits\<close>)
qed

lemma run_inv: "run as s = Some s' \<Longrightarrow> registry_inv s \<Longrightarrow> registry_inv s'"
  by (induction as arbitrary: s) (auto split: option.splits dest: exec_inv)

lemma run_keeps_entries:
  "run as s = Some s' \<Longrightarrow> registry_inv s \<Longrightarrow> mutexes (shared s) c = Some m \<Longrightarrow>
   mutexes (shared s') c = Some m"
proof (induction as arbitrary: s)
  case Nil
  then show ?case by simp
next
  case (Cons a as)
  from Cons.prems(1) obtain s1 where a: "exec a s = Some s1" and r: "run as s1 = Some s'"
    by (auto split: option.splits)
  from exec_inv [OF a Cons.prems(2)] exec_keeps_entries [OF a Cons.prems(2,3)] Cons.IH [OF r]
  show ?case by simp
qed

lemma getOrCreateMutex_entries:
  assumes "getOrCreateMutex d w c = (m, d', w')"
  shows "mutexes d' c = Some m"
    and "mutexes d k = Some v \<Longrightarrow> mutexes d' k = Some v"
    and "events w' = events w @ [Lock RegistryMutex, Unlock RegistryMutex]"
    and "fst (getOrCreateMutex d' wb c) = m" and "fst (snd (getOrCreateMutex d' wb c)) = d'"
  using assms
  by (auto simp: getOrCreateMutex_def Let_def emit_def split: option.splits)

lemma Write_keeps_entries:
  "mutexes d k = Some v \<Longrightarrow> mutexes (fst (snd (Write M d w c r x))) k = Some v"
proof (cases "c = [] \<or> r = []")
  case True
  then show "mutexes d k = Some v \<Longrightarrow> ?thesis" by (auto simp: Write_def)
next
  case False
  assume a: "mutexes d k = Some v"
  obtain m d1 w1 where g: "getOrCreateMutex d w c = (m, d1, w1)"
    by (cases "getOrCreateMutex d w c") auto
  with False have "fst (snd (Write M d w c r x)) = d1"
    by (simp add: Write_def split_def Let_def)
  with getOrCreateMutex_entries(2) [OF g a] show ?thesis by simp
qed

lemma Delete_keeps_entries:
  assumes "mutexes d k = Some v"
  shows "mutexes (fst (snd (Delete d w c r))) k = Some v"
proof -
  obtain m d1 w1 where g: "getOrCreateMutex d w c = (m, d1, w1)"
    by (cases "getOrCreateMutex d w c") auto
  then have "fst (snd (Delete d w c r)) = d1"
    by (simp add: Delete_def Let_def split_def)
  with getOrCreateMutex_entries(2) [OF g assms] show ?thesis by simp
qed

lemma critical_exclusive:
  assumes "registry_inv s" and "t1 < length (pcs s)" and "t2 < length (pcs s)"
    and "critical (pcs s ! t1)" and "critical (pcs s ! t2)"
  shows "t1 = t2"
proof -
  from assms have "holder s = Some t1" "holder s = Some t2"
    by (auto simp: registry_inv_def dest: critical_holder)
  then show ?thesis by simp
qed

lemma Returned_entry:
  "registry_inv s \<Longrightarrow> t < length (pcs s) \<Longrightarrow> pcs s ! t = Returned c m \<Longrightarrow>
   mutexes (shared s) c = Some m"
  by (auto simp: registry_inv_def)

lemma alone_run:
  assumes "holder s = None" and "t < length (pcs s)"
    and "pcs s ! t = Idle \<or> (\<exists>c' m'. pcs s ! t = Returned c' m')"
    and "heap w = allocated s"
  shows "run (Call t c # replicate (if mutexes (shared s) c = None then 5 else 4) (Step t)) s =
    Some (s\<lparr>shared := fst (snd (getOrCreateMutex (shared s) w c)),
            allocated := heap (snd (snd (getOrCreateMutex (shared s) w c))),
            pcs := (pcs s)[t := Returned c (fst (getOrCreateMutex (shared s) w c))]\<rparr>)"
proof (cases "mutexes (shared s) c")
  case None
  with assms show ?thesis
    by (auto simp: getOrCreateMutex_def Let_def emit_def numeral_eq_Suc)
next
  case (Some m)
  with assms show ?thesis
    by (auto simp: getOrCreateMutex_def Let_def emit_def numeral_eq_Suc)
qed

text \<open>
  Claim C8. One mutex per collection name, for the life of the driver.

  \<^item> A call of \<open>getOrCreateMutex\<close> leaves the name bound to the mutex it returns
    and every other entry as it was; it locks the mutex of the driver first and
    unlocks it last; a later call with the same name returns the same mutex and
    changes nothing.
  \<^item> \<open>Write\<close> and \<open>Delete\<close>, the callers of \<open>getOrCreateMutex\<close>, keep every
    entry of the registry.
  \<^item> Under every schedule of goroutines that run \<open>getOrCreateMutex\<close> statement
    by statement on a shared driver: at most one goroutine is between its
    \<open>Lock\<close> and its return, so lookup and insertion are one critical section;
    an entry is never removed or replaced; and two calls for the same name, made by
    any goroutines at any times, return the same mutex.
  \<^item> A goroutine that runs a call without interruption does what the function
    \<open>getOrCreateMutex\<close> of the sequential model does.
\<close>

theorem registry_one_mutex_per_collection:
  "(getOrCreateMutex d w c = (m, d', w') \<longrightarrow>
      mutexes d' c = Some m \<and>
      (\<forall>k v. mutexes d k = Some v \<longrightarrow> mutexes d' k = Some v) \<and>
      events w' = events w @ [Lock RegistryMutex, Unlock RegistryMutex] \<and>
      fst (getOrCreateMutex d' wb c) = m \<and> fst (snd (getOrCreateMutex d' wb c)) = d') \<and>
   (mutexes d k = Some v \<longrightarrow>
      mutexes (fst (snd (Write MarshalIndent d w c r x))) k = Some v \<and>
      mutexes (fst (snd (Delete d w c r))) k = Some v) \<and>
   (run as (initial_run d h n) = Some s \<longrightarrow>
      (\<forall>t1 t2. t1 < length (pcs s) \<and> t2 < length (pcs s) \<and>
          critical (pcs s ! t1) \<and> critical (pcs s ! t2) \<longrightarrow> t1 = t2) \<and>
      (\<forall>bs s' c m. run bs s = Some s' \<and> mutexes (shared s) c = Some m \<longrightarrow>
          mutexes (shared s') c = Some m) \<and>
      (\<forall>bs s' t t' c m m'. run bs s = Some s' \<and>
          t < length (pcs s) \<and> pcs s ! t = Returned c m \<and>
          t' < length (pcs s') \<and> pcs s' ! t' = Returned c m' \<longrightarrow> m = m') \<and>
      (\<forall>t c. holder s = None \<and> t < length (pcs s) \<and> heap w = allocated s \<and>
          (pcs s ! t = Idle \<or> (\<exists>c' m'. pcs s ! t = Returned c' m')) \<longrightarrow>
          run (Call t c # replicate (if mutexes (shared s) c = None then 5 else 4) (Step t)) s =
            Some (s\<lparr>shared := fst (snd (getOrCreateMutex (shared s) w c)),
                    allocated := heap (snd (snd (getOrCreateMutex (shared s) w c))),
                    pcs := (pcs s)[t := Returned c (fst (getOrCreateMutex (shared s) w c))]\<rparr>)))"
proof (intro conjI impI)
  assume g: "getOrCreateMutex d w c = (m, d', w')"
  show "mutexes d' c = Some m" by (rule getOrCreateMutex_entries(1) [OF g])
  show "\<forall>k v. mutexes d k = Some v \<longrightarrow> mutexes d' k = Some v"
    using getOrCreateMutex_entries(2) [OF g] by blast
  show "events w' = events w @ [Lock RegistryMutex, Unlock RegistryMutex]"
    by (rule getOrCreateMutex_entries(3) [OF g])
  show "fst (getOrCreateMutex d' wb c) = m" by (rule getOrCreateMutex_entries(4) [OF g])
  show "fst (snd (getOrCreateMutex d' wb c)) = d'" by (rule getOrCreateMutex_entries(5) [OF g])
next
  assume "mutexes d k = Some v"
  then show "mutexes (fst (snd (Write MarshalIndent d w c r x))) k = Some v"
    "mutexes (fst (snd (Delete d w c r))) k = Some v"
    by (rule Write_keeps_entries, rule Delete_keeps_entries)
next
  assume r: "run as (initial_run d h n) = Some s"
  from run_inv [OF r initial_run_inv] have inv: "registry_inv s" .
  show "\<forall>t1 t2. t1 < length (pcs s) \<and> t2 < length (pcs s) \<and>
          critical (pcs s ! t1) \<and> critical (pcs s ! t2) \<longrightarrow> t1 = t2"
    using critical_exclusive [OF inv] by blast
  show "\<forall>bs s' c m. run bs s = Some s' \<and> mutexes (shared s) c = Some m \<longrightarrow>
          mutexes (shared s') c = Some m"
    using run_keeps_entries [OF _ inv] by blast
  show "\<forall>bs s' t t' c m m'. run bs s = Some s' \<and>
          t < length (pcs s) \<and> pcs s ! t = Returned c m \<and>
          t' < length (pcs s') \<and> pcs s' ! t' = Returned c m' \<longrightarrow> m = m'"
  proof (intro allI impI, elim conjE)
    fix bs s' t t' c m m'
    assume b: "run bs s = Some s'" and t: "t < length (pcs s)" "pcs s ! t = Returned c m"
      and t': "t' < length (pcs s')" "pcs s' ! t' = Returned c m'"
    from Returned_entry [OF inv t] have "mutexes (shared s) c = Some m" .
    with run_keeps_entries [OF b inv] have "mutexes (shared s') c = Some m" by simp
    moreover from Returned_entry [OF run_inv [OF b inv] t'] have "mutexes (shared s') c = Some m'" .
    ultimately show "m = m'" by simp
  qed
  show "\<forall>t c. holder s = None \<and> t < length (pcs s) \<and> heap w = allocated s \<and>
          (pcs s ! t = Idle \<or> (\<exists>c' m'. pcs s ! t = Returned c' m')) \<longrightarrow>
          run (Call t c # replicate (if mutexes (shared s) c = None then 5 else 4) (Step t)) s =
            Some (s\<lparr>shared := fst (snd (getOrCreateMutex (shared s) w c)),
                    allocated := heap (snd (snd (getOrCreateMutex (shared s) w c))),
                    pcs := (pcs s)[t := Returned c (fst (getOrCreateMutex (shared s) w c))]\<rparr>)"
    using alone_run by blast
qed

lemma first_caller_run: "run first_caller (initial_run driver0 0 2) = Some run_mid"
  by (simp add: first_caller_def initial_run_def driver0_def run_mid_def driver1_def numeral_2_eq_2)

lemma second_caller_run: "run second_caller run_mid = Some run_end"
  by (simp add: second_caller_def run_mid_def run_end_def driver1_def)

lemma second_caller_blocked:
  "run [Call 0 ''users'', Call 1 ''users'', Step 0, Step 1] (initial_run driver0 0 2) = None"
  by (simp add: initial_run_def driver0_def numeral_2_eq_2)

lemma getOrCreateMutex_users:
  "getOrCreateMutex driver0 sys0 ''users'' =
     (0, driver1, sys0\<lparr>heap := 1, events := [Lock RegistryMutex, Unlock RegistryMutex]\<rparr>)"
  by (simp add: getOrCreateMutex_def driver0_def sys0_def driver1_def emit_def)

theorem registry_one_mutex_per_collection_witness:
  "getOrCreateMutex driver0 sys0 ''users'' =
     (0, driver1, sys0\<lparr>heap := 1, events := [Lock RegistryMutex, Unlock RegistryMutex]\<rparr>) \<and>
   fst (getOrCreateMutex driver1 sys1 ''users'') = 0 \<and>
   fst (snd (getOrCreateMutex driver1 sys1 ''users'')) = driver1 \<and>
   mutexes driver1 ''users'' = Some 0 \<and>
   mutexes (fst (snd (Write marshal_id driver1 sys1 ''users'' ''Kamzo'' ''{}''))) ''users'' = Some 0 \<and>
   mutexes (fst (snd (Delete driver1 sys1 ''users'' ''Kamo''))) ''users'' = Some 0 \<and>
   run first_caller (initial_run driver0 0 2) = Some run_mid \<and>
   run second_caller run_mid = Some run_end \<and>
   pcs run_mid ! 0 = Returned ''users'' 0 \<and>
   pcs run_end ! 1 = Returned ''users'' 0 \<and>
   mutexes (shared run_end) ''users'' = Some 0 \<and>
   run [Call 0 ''users'', Call 1 ''users'', Step 0, Step 1] (initial_run driver0 0 2) = None"
proof -
  note a = registry_one_mutex_per_collection [where d = driver0 and w = sys0 and c = "''users''"
      and m = 0 and d' = driver1 and wb = sys1 and as = first_caller and h = 0 and n = 2
      and s = run_mid
      and w' = "sys0\<lparr>heap := 1, events := [Lock RegistryMutex, Unlock RegistryMutex]\<rparr>"]
  note b = registry_one_mutex_per_collection [where d = driver1 and k = "''users''" and v = 0
      and w = sys1 and c = "''users''" and MarshalIndent = marshal_id and x = "''{}''"]
  have e: "mutexes driver1 ''users'' = Some 0" by (simp add: driver1_def)
  have p0: "pcs run_mid ! 0 = Returned ''users'' 0" by (simp add: run_mid_def)
  have p1: "pcs run_end ! 1 = Returned ''users'' 0" by (simp add: run_end_def)
  have m: "mutexes (shared run_mid) ''users'' = Some 0" by (simp add: run_mid_def driver1_def)
  note a1 = a [THEN conjunct1, THEN mp, OF getOrCreateMutex_users]
  from a1 have 1: "fst (getOrCreateMutex driver1 sys1 ''users'') = 0"
    and 2: "fst (snd (getOrCreateMutex driver1 sys1 ''users'')) = driver1"
    by simp_all
  from b [where r = "''Kamzo''", THEN conjunct2, THEN conjunct1, THEN mp, OF e]
  have 3: "mutexes (fst (snd (Write marshal_id driver1 sys1 ''users'' ''Kamzo'' ''{}''))) ''users'' = Some 0"
    by (rule conjunct1)
  from b [where r = "''Kamo''", THEN conjunct2, THEN conjunct1, THEN mp, OF e]
  have 4: "mutexes (fst (snd (Delete driver1 sys1 ''users'' ''Kamo''))) ''users'' = Some 0"
    by (rule conjunct2)
  note a3 = a [THEN conjunct2, THEN conjunct2, THEN mp, OF first_caller_run]
  from a3 have "\<forall>bs s' c m. run bs run_mid = Some s' \<and> mutexes (shared run_mid) c = Some m \<longrightarrow>
          mutexes (shared s') c = Some m"
    by (elim conjE)
  with second_caller_run m
  have 5: "mutexes (shared run_end) ''users'' = Some 0"
    by blast
  from getOrCreateMutex_users 1 2 e 3 4 first_caller_run second_caller_run p0 p1 5
    second_caller_blocked
  show ?thesis by blast
qed

end
